theory Spec2Isabelle
  imports Complex_Main
begin

section \<open>Python and numpy values used by \<open>netshare/utils/field.py\<close>\<close>

text \<open>
  Exceptions are values: every \<open>raise\<close>, failed \<open>assert\<close> and library error of the
  source is an \<open>Inl\<close> result. \<open>Exception\<close> carries the message of a bare
  \<open>raise Exception("...")\<close>.
\<close>

datatype py_error = ValueError | IndexError | AssertionError | Exception string

section \<open>Binary64 floating-point arithmetic\<close>

text \<open>
  The arrays of a continuous field are numpy arrays of dtype \<open>float64\<close> and the bounds
  \<open>min_x\<close>, \<open>max_x\<close> are floats, so every operator of \<open>normalize\<close> and
  \<open>denormalize\<close> is an IEEE 754 binary64 operation: the exact result rounded to the
  nearest representable value, ties to the even significand, with gradual underflow,
  overflow to an infinity, signed zeros and NaN; none of them raises. Integer arrays and
  integer bounds, whose arithmetic is exact or wraps, are not covered.

  A value is \<open>Fin r\<close> for a finite value \<open>r\<close> other than the negative zero (\<open>Fin 0\<close>
  is \<open>+0.0\<close>), \<open>NZero\<close> for \<open>-0.0\<close>, one of the two infinities, or NaN.
\<close>

datatype fval = Fin rat | NZero | PInf | NInf | NaN

text \<open>The number of binary digits of \<open>n\<close>, and \<open>2^k\<close> for an integer \<open>k\<close>.\<close>

fun bitlen :: "nat \<Rightarrow> nat" where
  "bitlen n = (if n = 0 then 0 else Suc (bitlen (n div 2)))"

declare bitlen.simps [simp del]

definition pow2 :: "int \<Rightarrow> rat" where
  "pow2 k = (if 0 \<le> k then 2 ^ nat k else 1 / 2 ^ nat (- k))"

text \<open>The binary exponent of a positive \<open>r\<close>: the \<open>e\<close> with \<open>2^e \<le> r < 2^(e+1)\<close>.\<close>

definition ilog2 :: "rat \<Rightarrow> int" where
  "ilog2 r =
     (if 1 \<le> r then int (bitlen (nat \<lfloor>r\<rfloor>)) - 1
      else - int (bitlen (nat (\<lceil>1 / r\<rceil> - 1))))"

definition round_half_even :: "rat \<Rightarrow> int" where
  "round_half_even t =
     (let f = \<lfloor>t\<rfloor>; d = t - of_int f
      in if d < 1 / 2 then f else if 1 / 2 < d then f + 1 else if even f then f else f + 1)"

text \<open>
  Rounding of the exact result \<open>r\<close> of an operation. The exponent is at least \<open>-1022\<close>
  (below it values are subnormal), the significand \<open>n\<close> is a multiple of the unit in
  the last place \<open>q = 2^(e-52)\<close>; a result that rounds to \<open>2^1024\<close> or more is an
  infinity, and one that rounds to nothing is a zero with the sign of \<open>r\<close>.
\<close>

definition rnd :: "rat \<Rightarrow> fval" where
  "rnd r =
     (if r = 0 then Fin 0
      else
        let e = max (ilog2 \<bar>r\<bar>) (- 1022);
            q = pow2 (e - 52);
            n = round_half_even (\<bar>r\<bar> / q)
        in if 1023 < e \<or> (e = 1023 \<and> n = 2 ^ 53) then (if 0 < r then PInf else NInf)
           else if n = 0 then (if 0 < r then Fin 0 else NZero)
           else Fin (sgn r * of_int n * q))"

fun sign_neg :: "fval \<Rightarrow> bool" where
  "sign_neg (Fin a) = (a < 0)"
| "sign_neg NZero = True"
| "sign_neg NInf = True"
| "sign_neg PInf = False"
| "sign_neg NaN = False"

fun is_zero :: "fval \<Rightarrow> bool" where
  "is_zero (Fin a) = (a = 0)"
| "is_zero NZero = True"
| "is_zero v = False"

fun is_inf :: "fval \<Rightarrow> bool" where
  "is_inf PInf = True"
| "is_inf NInf = True"
| "is_inf v = False"

fun is_finite :: "fval \<Rightarrow> bool" where
  "is_finite (Fin a) = True"
| "is_finite NZero = True"
| "is_finite v = False"

text \<open>The numeric value of a finite float (both zeros are \<open>0\<close>).\<close>

fun to_rat :: "fval \<Rightarrow> rat" where
  "to_rat (Fin a) = a"
| "to_rat v = 0"

definition zero_of :: "bool \<Rightarrow> fval" where
  "zero_of neg = (if neg then NZero else Fin 0)"

definition inf_of :: "bool \<Rightarrow> fval" where
  "inf_of neg = (if neg then NInf else PInf)"

fun fneg :: "fval \<Rightarrow> fval" where
  "fneg (Fin a) = (if a = 0 then NZero else Fin (- a))"
| "fneg NZero = Fin 0"
| "fneg PInf = NInf"
| "fneg NInf = PInf"
| "fneg NaN = NaN"

text \<open>
  The four operators. \<open>inf - inf\<close>, \<open>0 * inf\<close>, \<open>inf / inf\<close> and \<open>0 / 0\<close> are NaN; a
  finite non-zero value divided by a zero is an infinity whose sign is the product of the
  two signs (numpy warns and does not raise); a sum of two zeros is \<open>-0.0\<close> only when
  both are.
\<close>

definition fadd :: "fval \<Rightarrow> fval \<Rightarrow> fval" where
  "fadd x y =
     (if x = NaN \<or> y = NaN then NaN
      else if is_inf x then (if is_inf y \<and> x \<noteq> y then NaN else x)
      else if is_inf y then y
      else if is_zero x \<and> is_zero y then zero_of (sign_neg x \<and> sign_neg y)
      else rnd (to_rat x + to_rat y))"

definition fsub :: "fval \<Rightarrow> fval \<Rightarrow> fval" where
  "fsub x y = fadd x (fneg y)"

definition fmul :: "fval \<Rightarrow> fval \<Rightarrow> fval" where
  "fmul x y =
     (if x = NaN \<or> y = NaN then NaN
      else if is_inf x \<or> is_inf y
        then (if is_zero x \<or> is_zero y then NaN else inf_of (sign_neg x \<noteq> sign_neg y))
      else if is_zero x \<or> is_zero y then zero_of (sign_neg x \<noteq> sign_neg y)
      else rnd (to_rat x * to_rat y))"

definition fdiv :: "fval \<Rightarrow> fval \<Rightarrow> fval" where
  "fdiv x y =
     (if x = NaN \<or> y = NaN then NaN
      else if is_inf x then (if is_inf y then NaN else inf_of (sign_neg x \<noteq> sign_neg y))
      else if is_inf y then zero_of (sign_neg x \<noteq> sign_neg y)
      else if is_zero y
        then (if is_zero x then NaN else inf_of (sign_neg x \<noteq> sign_neg y))
      else if is_zero x then zero_of (sign_neg x \<noteq> sign_neg y)
      else rnd (to_rat x / to_rat y))"

text \<open>Python's \<open>==\<close> on floats: NaN equals nothing, and the two zeros are equal.\<close>

definition feq :: "fval \<Rightarrow> fval \<Rightarrow> bool" where
  "feq x y = (x \<noteq> NaN \<and> y \<noteq> NaN \<and> (x = y \<or> (is_zero x \<and> is_zero y)))"

text \<open>
  The finite values that binary64 represents: \<open>m * 2^k\<close> with a significand below
  \<open>2^53\<close>, an exponent of at least \<open>-1074\<close> and a magnitude below \<open>2^1024\<close>. The
  predicate is used in proofs only (rounding leaves such a value unchanged).
\<close>

definition repr :: "rat \<Rightarrow> bool" where
  "repr v \<longleftrightarrow> (\<exists>m k. \<bar>m\<bar> < 2 ^ 53 \<and> - 1074 \<le> k \<and> v = of_int m * pow2 k \<and> \<bar>v\<bar> < pow2 1024)"

section \<open>numpy arrays\<close>

text \<open>
  A numpy array is its shape and its elements in row-major order. Element-wise
  operations keep the shape; \<open>x.shape[-1]\<close> raises \<open>IndexError\<close> on a 0-dimensional array.
\<close>

record 'a ndarray =
  shape :: "nat list"
  data :: "'a list"

definition map_nd :: "('a \<Rightarrow> 'a) \<Rightarrow> 'a ndarray \<Rightarrow> 'a ndarray" where
  "map_nd g x = x\<lparr>data := map g (data x)\<rparr>"

definition shape_last :: "'a ndarray \<Rightarrow> py_error + nat" where
  "shape_last x = (case shape x of [] \<Rightarrow> Inl IndexError | d # ds \<Rightarrow> Inr (last (d # ds)))"

section \<open>Output descriptors\<close>

text \<open>
  Modelled from the spec: the module \<open>output.py\<close> (\<open>Normalization\<close>, \<open>OutputType\<close>,
  \<open>Output\<close>) is imported by the source and is not part of it. The spec gives the two
  enumerations and the descriptor with its kind, its width and a normalization that is
  present only for continuous outputs. The field \<open>output_type\<close> is the argument
  \<open>type_\<close> of the source.
\<close>

datatype Normalization = ZERO_ONE | MINUSONE_ONE

datatype OutputType = CONTINUOUS | DISCRETE

record Output =
  output_type :: OutputType
  dim :: int
  normalization :: "Normalization option"

section \<open>Field and ContinuousField\<close>

record Field =
  name :: string

text \<open>
  \<open>norm_option\<close> is \<open>None\<close> when the configured value is not a member of the
  enumeration; that is the \<open>else\<close> branch of both methods. The bounds are floats.
\<close>

record ContinuousField = Field +
  norm_option :: "Normalization option"
  min_x :: fval
  max_x :: fval
  dim_x :: int

text \<open>
  \<open>(x - min_x) / (max_x - min_x)\<close> and \<open>2 * (x - min_x) / (max_x - min_x) - 1\<close>, element by
  element; the integer constants are converted to floats by the array operators.
\<close>

definition ContinuousField_normalize ::
  "ContinuousField \<Rightarrow> fval ndarray \<Rightarrow> py_error + fval ndarray" where
  "ContinuousField_normalize self x =
     (case shape_last x of
        Inl e \<Rightarrow> Inl e
      | Inr d \<Rightarrow>
          if int d \<noteq> dim_x self then Inl ValueError
          else (case norm_option self of
              Some ZERO_ONE \<Rightarrow>
                Inr (map_nd (\<lambda>v. fdiv (fsub v (min_x self))
                                        (fsub (max_x self) (min_x self))) x)
            | Some MINUSONE_ONE \<Rightarrow>
                Inr (map_nd (\<lambda>v. fsub (fdiv (fmul (Fin 2) (fsub v (min_x self)))
                                              (fsub (max_x self) (min_x self))) (Fin 1)) x)
            | None \<Rightarrow> Inl (Exception ''Not valid normalization option!'')))"

text \<open>
  \<open>norm_x * float(max_x - min_x) + min_x\<close> and
  \<open>(norm_x + 1) / 2.0 * float(max_x - min_x) + min_x\<close>; \<open>float\<close> of a float is the float
  itself, also for an infinity and for NaN.
\<close>

definition ContinuousField_denormalize ::
  "ContinuousField \<Rightarrow> fval ndarray \<Rightarrow> py_error + fval ndarray" where
  "ContinuousField_denormalize self norm_x =
     (case shape_last norm_x of
        Inl e \<Rightarrow> Inl e
      | Inr d \<Rightarrow>
          if int d \<noteq> dim_x self then Inl ValueError
          else (case norm_option self of
              Some ZERO_ONE \<Rightarrow>
                Inr (map_nd (\<lambda>v. fadd (fmul v (fsub (max_x self) (min_x self)))
                                        (min_x self)) norm_x)
            | Some MINUSONE_ONE \<Rightarrow>
                Inr (map_nd (\<lambda>v. fadd (fmul (fdiv (fadd v (Fin 1)) (Fin 2))
                                              (fsub (max_x self) (min_x self)))
                                        (min_x self)) norm_x)
            | None \<Rightarrow> Inl (Exception ''Not valid normalization option!'')))"

definition ContinuousField_getOutputType :: "ContinuousField \<Rightarrow> Output" where
  "ContinuousField_getOutputType self =
     \<lparr>output_type = CONTINUOUS, dim = dim_x self, normalization = norm_option self\<rparr>"

section \<open>numpy's argmax\<close>

text \<open>
  \<open>np.argmax\<close> scans from the left and keeps the first position of the largest value;
  on an empty sequence it raises \<open>ValueError\<close>.
\<close>

fun argmax_from :: "rat \<Rightarrow> nat \<Rightarrow> nat \<Rightarrow> rat list \<Rightarrow> nat" where
  "argmax_from best bi i [] = bi"
| "argmax_from best bi i (v # vs) =
     (if best < v then argmax_from v i (Suc i) vs else argmax_from best bi (Suc i) vs)"

definition np_argmax :: "rat list \<Rightarrow> py_error + nat" where
  "np_argmax xs = (case xs of [] \<Rightarrow> Inl ValueError | v # vs \<Rightarrow> Inr (argmax_from v 0 1 vs))"

text \<open>A comprehension or loop whose body may raise stops at the first error.\<close>

fun mapM :: "('a \<Rightarrow> py_error + 'b) \<Rightarrow> 'a list \<Rightarrow> py_error + 'b list" where
  "mapM g [] = Inr []"
| "mapM g (x # xs) =
     (case g x of
        Inl e \<Rightarrow> Inl e
      | Inr y \<Rightarrow> (case mapM g xs of Inl e \<Rightarrow> Inl e | Inr ys \<Rightarrow> Inr (y # ys)))"

section \<open>DiscreteField\<close>

text \<open>
  The constructor rejects a \<open>choices\<close> that is not a list; here it is a list by type.
  \<open>dim_x\<close> is \<open>len(choices)\<close>.
\<close>

record 'a DiscreteField = Field +
  choices :: "'a list"

definition DiscreteField_dim_x :: "'a DiscreteField \<Rightarrow> int" where
  "DiscreteField_dim_x self = int (length (choices self))"

text \<open>The argument of \<open>normalize\<close>: one label, or a list (or array) of labels.\<close>

datatype 'a labels = Single 'a | Many "'a list"

text \<open>
  \<open>pd.DataFrame(norm_x).astype(pd.CategoricalDtype(categories=choices))\<close> followed by
  \<open>pd.get_dummies(...).to_numpy()\<close>: the dtype rejects categories that are not unique
  (\<open>ValueError\<close>); a value outside the categories becomes missing, and a missing value
  sets no indicator; there is one indicator column per category, in category order, and
  one row per value. An empty frame has no column to encode, and \<open>get_dummies\<close>
  raises \<open>ValueError\<close> on it.
\<close>

definition one_hot :: "'a list \<Rightarrow> 'a \<Rightarrow> rat list" where
  "one_hot cs v = map (\<lambda>c. if v = c then 1 else 0) cs"

definition get_dummies :: "'a list \<Rightarrow> 'a list \<Rightarrow> py_error + rat ndarray" where
  "get_dummies cs vs =
     (if \<not> distinct cs then Inl ValueError
      else if vs = [] then Inl ValueError
      else Inr \<lparr>shape = [length vs, length cs], data = concat (map (one_hot cs) vs)\<rparr>)"

text \<open>\<open>a[0]\<close> on an array: the first slice along axis 0.\<close>

definition nd_first :: "'a ndarray \<Rightarrow> py_error + 'a ndarray" where
  "nd_first a =
     (case shape a of
        [] \<Rightarrow> Inl IndexError
      | d # ds \<Rightarrow>
          if d = 0 then Inl IndexError
          else Inr \<lparr>shape = ds, data = take (prod_list ds) (data a)\<rparr>)"

definition DiscreteField_normalize ::
  "'a DiscreteField \<Rightarrow> 'a labels \<Rightarrow> py_error + rat ndarray" where
  "DiscreteField_normalize self x =
     (case get_dummies (choices self) (case x of Single v \<Rightarrow> [v] | Many vs \<Rightarrow> vs) of
        Inl e \<Rightarrow> Inl e
      | Inr norm_x \<Rightarrow> (case x of Single v \<Rightarrow> nd_first norm_x | Many vs \<Rightarrow> Inr norm_x))"

text \<open>
  \<open>np.argmax(norm_x, axis=-1)\<close> reduces the last axis: the result has the remaining
  axes, one index per row. A 0-dimensional input is treated as one row of one element.
  A last axis of length 0 raises \<open>ValueError\<close>, also when the array has no row. Indexing \<open>np.asarray(choices)\<close> with
  the indices raises \<open>IndexError\<close> when one of them is not a position of \<open>choices\<close>.
\<close>

definition nd_rows :: "'a ndarray \<Rightarrow> 'a list list" where
  "nd_rows a =
     (let n = (case shape a of [] \<Rightarrow> 1 | d # ds \<Rightarrow> last (d # ds))
      in map (\<lambda>i. take n (drop (i * n) (data a))) [0..<prod_list (butlast (shape a))])"

definition take_choice :: "'a list \<Rightarrow> nat \<Rightarrow> py_error + 'a" where
  "take_choice cs i = (if i < length cs then Inr (cs ! i) else Inl IndexError)"

definition DiscreteField_denormalize ::
  "'a DiscreteField \<Rightarrow> rat ndarray \<Rightarrow> py_error + 'a ndarray" where
  "DiscreteField_denormalize self norm_x =
     (if shape norm_x \<noteq> [] \<and> last (shape norm_x) = 0 then Inl ValueError
      else (case mapM np_argmax (nd_rows norm_x) of
          Inl e \<Rightarrow> Inl e
        | Inr index \<Rightarrow>
            (case mapM (take_choice (choices self)) index of
               Inl e \<Rightarrow> Inl e
             | Inr labels \<Rightarrow> Inr \<lparr>shape = butlast (shape norm_x), data = labels\<rparr>)))"

definition DiscreteField_getOutputType :: "'a DiscreteField \<Rightarrow> Output" where
  "DiscreteField_getOutputType self =
     \<lparr>output_type = DISCRETE, dim = int (length (choices self)), normalization = None\<rparr>"

section \<open>Python string builtins used by BitField\<close>

text \<open>\<open>bin(n)\<close>: \<open>0b\<close> and the binary digits, most significant first, after a \<open>-\<close> for a negative \<open>n\<close>.\<close>

fun bin_digits :: "nat \<Rightarrow> string" where
  "bin_digits n =
     (if n < 2 then [if n = 0 then CHR ''0'' else CHR ''1'']
      else bin_digits (n div 2) @ [if n mod 2 = 0 then CHR ''0'' else CHR ''1''])"

declare bin_digits.simps [simp del]

definition bin :: "int \<Rightarrow> string" where
  "bin n = (if n < 0 then ''-0b'' @ bin_digits (nat (- n)) else ''0b'' @ bin_digits (nat n))"

text \<open>\<open>s.zfill(width)\<close>: zeros on the left up to \<open>width\<close>, after a leading sign if there is one.\<close>

definition zfill :: "string \<Rightarrow> int \<Rightarrow> string" where
  "zfill s width =
     (if width \<le> int (length s) then s
      else (case s of
              c # cs \<Rightarrow>
                if c = CHR ''+'' \<or> c = CHR ''-''
                then c # replicate (nat width - length s) (CHR ''0'') @ cs
                else replicate (nat width - length s) (CHR ''0'') @ s
            | [] \<Rightarrow> replicate (nat width - length s) (CHR ''0'') @ s))"

text \<open>\<open>int(b)\<close> for a one-character string \<open>b\<close>: a decimal digit, or \<open>ValueError\<close>.\<close>

definition int_of_digit :: "char \<Rightarrow> py_error + int" where
  "int_of_digit c =
     (if c \<in> set ''0123456789'' then Inr (int (of_char c) - 48) else Inl ValueError)"

text \<open>
  \<open>int(s, 2)\<close> for a string without sign, blanks or underscores: an optional \<open>0b\<close>, then
  at least one binary digit, or \<open>ValueError\<close>.
\<close>

definition int_base2 :: "string \<Rightarrow> py_error + int" where
  "int_base2 s =
     (let ds = (if take 2 s = ''0b'' then drop 2 s else s)
      in if ds = [] \<or> \<not> list_all (\<lambda>c. c = CHR ''0'' \<or> c = CHR ''1'') ds then Inl ValueError
         else Inr (foldl (\<lambda>acc c. 2 * acc + (if c = CHR ''1'' then 1 else 0)) 0 ds))"

section \<open>BitField\<close>

record BitField = Field +
  num_bits :: int

definition BitField_dim_x :: "BitField \<Rightarrow> int" where
  "BitField_dim_x self = num_bits self * 2"

text \<open>
  The loop of \<open>normalize\<close>, with the list \<open>bits\<close> it extends and the lines it prints.
\<close>

fun normalize_loop :: "int list \<Rightarrow> rat list \<Rightarrow> string list \<Rightarrow> rat list \<times> string list" where
  "normalize_loop [] bits out = (bits, out)"
| "normalize_loop (b # bs) bits out =
     (if b = 0 then normalize_loop bs (bits @ [1, 0]) out
      else if b = 1 then normalize_loop bs (bits @ [0, 1]) out
      else normalize_loop bs bits (out @ [''Binary number is zero or one!'']))"

text \<open>The result is the returned list together with the printed lines.\<close>

definition BitField_normalize :: "BitField \<Rightarrow> int \<Rightarrow> py_error + rat list \<times> string list" where
  "BitField_normalize self decimal_x =
     (case mapM int_of_digit (zfill (drop 2 (bin decimal_x)) (num_bits self)) of
        Inl e \<Rightarrow> Inl e
      | Inr bin_x \<Rightarrow> Inr (normalize_loop bin_x [] []))"

text \<open>
  The loop of \<open>denormalize\<close> over \<open>range(num_bits)\<close>, with the string \<open>bits\<close> it
  extends. A Python slice is cut at the end of the list, as \<open>take\<close> and \<open>drop\<close> are.
\<close>

fun denormalize_loop :: "rat list \<Rightarrow> nat list \<Rightarrow> string \<Rightarrow> py_error + string" where
  "denormalize_loop bin_x [] bits = Inr bits"
| "denormalize_loop bin_x (i # is) bits =
     (case np_argmax (take 2 (drop (2 * i) bin_x)) of
        Inl e \<Rightarrow> Inl e
      | Inr index \<Rightarrow>
          if index = 0 then denormalize_loop bin_x is (bits @ ''0'')
          else if index = 1 then denormalize_loop bin_x is (bits @ ''1'')
          else Inl (Exception ''Bits array is ZERO or ONE!''))"

text \<open>The argument is a list by type, so the \<open>isinstance\<close> check passes.\<close>

definition BitField_denormalize :: "BitField \<Rightarrow> rat list \<Rightarrow> py_error + int" where
  "BitField_denormalize self bin_x =
     (if int (length bin_x) \<noteq> 2 * num_bits self then Inl AssertionError
      else (case denormalize_loop bin_x [0..<nat (num_bits self)] ''0b'' of
              Inl e \<Rightarrow> Inl e
            | Inr bits \<Rightarrow> int_base2 bits))"

definition BitField_getOutputType :: "BitField \<Rightarrow> Output list" where
  "BitField_getOutputType self =
     map (\<lambda>i. \<lparr>output_type = DISCRETE, dim = 2, normalization = None\<rparr>) [0..<nat (num_bits self)]"

section \<open>Binary64: powers of two, binary exponent and rounding to an integer\<close>

lemma pow2_powi: "pow2 k = 2 powi k"
  by (simp add: pow2_def power_int_def inverse_eq_divide power_one_over)

lemma pow2_pos: "0 < pow2 k"
  by (simp add: pow2_powi)

lemma pow2_add: "pow2 (a + b) = pow2 a * pow2 b"
  by (simp add: pow2_powi power_int_add)

lemma pow2_diff: "pow2 (a - b) = pow2 a / pow2 b"
  by (simp add: pow2_powi power_int_diff)

lemma pow2_mono: "a \<le> b \<Longrightarrow> pow2 a \<le> pow2 b"
  by (simp add: pow2_powi power_int_increasing)

lemma pow2_strict_mono: "a < b \<Longrightarrow> pow2 a < pow2 b"
  by (simp add: pow2_powi power_int_strict_increasing)

lemma pow2_le_iff: "pow2 a \<le> pow2 b \<longleftrightarrow> a \<le> b"
  using pow2_mono [of a b] pow2_strict_mono [of b a] by (cases "a \<le> b") auto

lemma pow2_less_iff: "pow2 a < pow2 b \<longleftrightarrow> a < b"
  using pow2_mono [of b a] pow2_strict_mono [of a b] by (cases "a < b") auto

lemma pow2_0: "pow2 0 = 1"
  by (simp add: pow2_def)

lemma pow2_1: "pow2 1 = 2"
  by (simp add: pow2_def)

lemma pow2_Suc: "pow2 (k + 1) = 2 * pow2 k"
  by (simp add: pow2_add pow2_1)

lemma pow2_nat: "pow2 (int n) = 2 ^ n"
  by (simp add: pow2_def)

lemma pow2_neg_nat: "pow2 (- int n) = 1 / 2 ^ n"
  by (simp add: pow2_def)

lemma bitlen_bounds:
  assumes "0 < n"
  shows "2 ^ (bitlen n - 1) \<le> n \<and> n < 2 ^ bitlen n"
  using assms
proof (induction n rule: bitlen.induct)
  case (1 n)
  show ?case
  proof (cases "n div 2 = 0")
    case True
    with "1.prems" have "n = 1" by (simp add: div_eq_0_iff) 
    then show ?thesis by (simp add: bitlen.simps [of "Suc 0"] bitlen.simps [of 0])
  next
    case False
    then have pos: "0 < n div 2" by simp
    from "1.prems" have n0: "n \<noteq> 0" by simp
    from "1.IH" [OF n0 pos] have lo: "2 ^ (bitlen (n div 2) - 1) \<le> n div 2"
      and hi: "n div 2 < 2 ^ bitlen (n div 2)" by simp_all
    have bl: "bitlen n = Suc (bitlen (n div 2))" using n0 by (subst bitlen.simps) simp
    have pos_bl: "0 < bitlen (n div 2)" using pos by (subst bitlen.simps) simp
    have "2 ^ (bitlen n - 1) = 2 * 2 ^ (bitlen (n div 2) - 1)"
      using pos_bl bl by (cases "bitlen (n div 2)") simp_all
    also have "\<dots> \<le> 2 * (n div 2)" using lo by simp
    also have "\<dots> \<le> n" by simp
    finally have a: "2 ^ (bitlen n - 1) \<le> n" .
    have "n < 2 * (n div 2) + 2" by presburger
    also have "\<dots> \<le> 2 * 2 ^ bitlen (n div 2)" using hi by simp
    also have "\<dots> = 2 ^ bitlen n" by (simp add: bl)
    finally show ?thesis using a by simp
  qed
qed

lemma bitlen_pos: "0 < n \<Longrightarrow> 0 < bitlen n"
  by (subst bitlen.simps) simp

lemma ilog2_bounds:
  assumes "0 < r"
  shows "pow2 (ilog2 r) \<le> r \<and> r < pow2 (ilog2 r + 1)"
proof (cases "1 \<le> r")
  case True
  define N where "N = nat \<lfloor>r\<rfloor>"
  have N1: "1 \<le> \<lfloor>r\<rfloor>" using True by simp
  then have Npos: "0 < N" by (simp add: N_def)
  have "of_int \<lfloor>r\<rfloor> \<le> r" "r < of_int \<lfloor>r\<rfloor> + 1" by linarith+
  moreover have "(of_nat N :: rat) = of_int \<lfloor>r\<rfloor>"
    using N1 by (simp add: N_def)
  ultimately have Nr: "of_nat N \<le> r" "r < of_nat N + 1" by simp_all
  from bitlen_bounds [OF Npos] have lo: "2 ^ (bitlen N - 1) \<le> N" and hi: "N < 2 ^ bitlen N"
    by simp_all
  have il: "ilog2 r = int (bitlen N) - 1" using True by (simp add: ilog2_def N_def)
  have bp: "0 < bitlen N" using Npos by (rule bitlen_pos)
  have "pow2 (ilog2 r) = 2 ^ (bitlen N - 1)"
    using bp by (simp add: il pow2_def nat_diff_distrib)
  also have "\<dots> = of_nat (2 ^ (bitlen N - 1))" by simp
  also have "\<dots> \<le> of_nat N" using lo by (simp only: of_nat_le_iff)
  also have "\<dots> \<le> r" by (rule Nr)
  finally have a: "pow2 (ilog2 r) \<le> r" .
  have "N + 1 \<le> 2 ^ bitlen N" using hi by simp
  then have "(of_nat (N + 1) :: rat) \<le> of_nat (2 ^ bitlen N)" by (simp only: of_nat_le_iff)
  then have "r < 2 ^ bitlen N" using Nr(2) by simp
  also have "\<dots> = pow2 (ilog2 r + 1)" by (simp add: il pow2_def)
  finally show ?thesis using a by simp
next
  case False
  then have r1: "r < 1" by simp
  define s where "s = 1 / r"
  have s1: "1 < s" using assms r1 by (simp add: s_def)
  define M where "M = nat (\<lceil>s\<rceil> - 1)"
  have c2: "2 \<le> \<lceil>s\<rceil>" using s1 by (simp add: le_ceiling_iff) 
  then have Mpos: "0 < M" by (simp add: M_def)
  have Ms: "of_nat M < s" "s \<le> of_nat M + 1"
  proof -
    have "of_int (\<lceil>s\<rceil> - 1) < s" by linarith
    moreover have "of_int (int M) = (of_nat M :: rat)" by simp
    moreover have "int M = \<lceil>s\<rceil> - 1" using c2 by (simp add: M_def)
    ultimately show "of_nat M < s" by (metis)
    have "s \<le> of_int \<lceil>s\<rceil>" by (rule le_of_int_ceiling)
    also have "of_int \<lceil>s\<rceil> = (of_int (int M + 1) :: rat)" using \<open>int M = \<lceil>s\<rceil> - 1\<close> by simp
    finally show "s \<le> of_nat M + 1" by simp
  qed
  from bitlen_bounds [OF Mpos] have lo: "2 ^ (bitlen M - 1) \<le> M" and hi: "M < 2 ^ bitlen M"
    by simp_all
  have il: "ilog2 r = - int (bitlen M)" using False by (simp add: ilog2_def M_def s_def)
  have bp: "0 < bitlen M" using Mpos by (rule bitlen_pos)
  have "M + 1 \<le> 2 ^ bitlen M" using hi by simp
  then have "(of_nat (M + 1) :: rat) \<le> of_nat (2 ^ bitlen M)" by (simp only: of_nat_le_iff)
  then have s_hi: "s \<le> 2 ^ bitlen M" using Ms(2) by simp
  have "(of_nat (2 ^ (bitlen M - 1)) :: rat) \<le> of_nat M" using lo by (simp only: of_nat_le_iff)
  then have "(of_nat (2 ^ (bitlen M - 1)) :: rat) < s" using Ms(1) by (rule le_less_trans)
  then have s_lo: "2 ^ (bitlen M - 1) < s" by simp
  have rs: "r = 1 / s" using assms by (simp add: s_def)
  have "pow2 (ilog2 r) = 1 / 2 ^ bitlen M" by (simp add: il pow2_neg_nat)
  also have "\<dots> \<le> 1 / s" using s_hi s1 by (simp add: frac_le)
  finally have a: "pow2 (ilog2 r) \<le> r" by (simp add: rs)
  have "r = 1 / s" by (rule rs)
  also have "\<dots> < 1 / 2 ^ (bitlen M - 1)" using s_lo by (simp add: frac_less2)
  also have "\<dots> = pow2 (- int (bitlen M - 1))" by (simp only: pow2_neg_nat)
  also have "- int (bitlen M - 1) = ilog2 r + 1" using bp by (simp add: il)
  finally show ?thesis using a by simp
qed

lemma ilog2_unique:
  assumes "0 < r" and "pow2 k \<le> r" and "r < pow2 (k + 1)"
  shows "ilog2 r = k"
proof -
  from ilog2_bounds [OF assms(1)] have b: "pow2 (ilog2 r) \<le> r" "r < pow2 (ilog2 r + 1)"
    by simp_all
  have "pow2 k < pow2 (ilog2 r + 1)" using assms(2) b(2) by simp
  then have "k < ilog2 r + 1" by (simp only: pow2_less_iff)
  moreover have "pow2 (ilog2 r) < pow2 (k + 1)" using assms(3) b(1) by simp
  then have "ilog2 r < k + 1" by (simp only: pow2_less_iff)
  ultimately show ?thesis by simp
qed

lemma round_half_even_error: "\<bar>of_int (round_half_even t) - t\<bar> \<le> 1 / 2"
proof -
  have "of_int \<lfloor>t\<rfloor> \<le> t" "t < of_int \<lfloor>t\<rfloor> + 1" by linarith+
  then show ?thesis by (auto simp: round_half_even_def Let_def)
qed

lemma round_half_even_of_int: "round_half_even (of_int n) = n"
  by (simp add: round_half_even_def)

lemma round_half_even_nonneg: "0 \<le> t \<Longrightarrow> 0 \<le> round_half_even t"
  by (auto simp: round_half_even_def Let_def)

lemma round_half_even_near:
  assumes "\<bar>t - of_int n\<bar> < 1 / 2"
  shows "round_half_even t = n"
proof -
  have e: "\<bar>of_int (round_half_even t) - t\<bar> \<le> 1 / 2" by (rule round_half_even_error)
  have "\<bar>(of_int (round_half_even t) :: rat) - of_int n\<bar> < 1" using e assms by linarith
  then have "\<bar>(of_int (round_half_even t - n) :: rat)\<bar> < 1" by simp
  then have "\<bar>round_half_even t - n\<bar> < 1"
    by (metis of_int_abs of_int_less_1_iff)
  then show ?thesis by simp
qed

lemma round_half_even_le:
  assumes "t \<le> of_int n"
  shows "round_half_even t \<le> n"
proof -
  show ?thesis
  proof (cases "t = of_int n")
    case True
    then show ?thesis by (simp add: round_half_even_of_int)
  next
    case False
    with assms have "t < of_int n" by simp
    then have "\<lfloor>t\<rfloor> < n" by (simp add: floor_less_iff)
    then show ?thesis by (auto simp: round_half_even_def Let_def)
  qed
qed

lemma round_half_even_ge:
  assumes "of_int n \<le> t"
  shows "n \<le> round_half_even t"
proof -
  have "n \<le> \<lfloor>t\<rfloor>" using assms by (simp add: le_floor_iff)
  then show ?thesis by (auto simp: round_half_even_def Let_def)
qed

section \<open>Binary64: the error of one rounding and the values it leaves unchanged\<close>

lemma pow2_53_scale: "2 ^ 53 * pow2 (e - 52) = pow2 (e + 1)"
proof -
  have "pow2 (e + 1) = pow2 (53 + (e - 52))" by (rule arg_cong [of _ _ pow2]) simp
  also have "\<dots> = pow2 53 * pow2 (e - 52)" by (rule pow2_add)
  also have "pow2 53 = 2 ^ 53" by (simp add: pow2_def)
  finally show ?thesis by simp
qed

lemma pow2_52_scale: "2 ^ 52 * pow2 (e - 52) = pow2 e"
proof -
  have "pow2 e = pow2 (52 + (e - 52))" by (rule arg_cong [of _ _ pow2]) simp
  also have "\<dots> = pow2 52 * pow2 (e - 52)" by (rule pow2_add)
  also have "pow2 52 = 2 ^ 52" by (simp add: pow2_def)
  finally show ?thesis by simp
qed

lemma rnd_nonzero_unfold:
  assumes "r \<noteq> 0"
  shows "rnd r =
     (if 1023 < max (ilog2 \<bar>r\<bar>) (- 1022)
          \<or> (max (ilog2 \<bar>r\<bar>) (- 1022) = 1023
              \<and> round_half_even (\<bar>r\<bar> / pow2 (max (ilog2 \<bar>r\<bar>) (- 1022) - 52)) = 2 ^ 53)
      then (if 0 < r then PInf else NInf)
      else if round_half_even (\<bar>r\<bar> / pow2 (max (ilog2 \<bar>r\<bar>) (- 1022) - 52)) = 0
        then (if 0 < r then Fin 0 else NZero)
      else Fin (sgn r * of_int (round_half_even (\<bar>r\<bar> / pow2 (max (ilog2 \<bar>r\<bar>) (- 1022) - 52)))
                  * pow2 (max (ilog2 \<bar>r\<bar>) (- 1022) - 52)))"
  using assms by (simp add: rnd_def Let_def)

lemma scaled_upper:
  assumes "r \<noteq> 0" and "e = max (ilog2 \<bar>r\<bar>) (- 1022)"
  shows "\<bar>r\<bar> / pow2 (e - 52) < 2 ^ 53"
proof -
  have pos: "0 < \<bar>r\<bar>" using assms(1) by simp
  from ilog2_bounds [OF pos] have "\<bar>r\<bar> < pow2 (ilog2 \<bar>r\<bar> + 1)" by simp
  also have "\<dots> \<le> pow2 (e + 1)" using assms(2) by (intro pow2_mono) simp
  also have "\<dots> = 2 ^ 53 * pow2 (e - 52)" by (rule pow2_53_scale [symmetric])
  finally have "\<bar>r\<bar> < 2 ^ 53 * pow2 (e - 52)" .
  then show ?thesis
    using pow2_pos [of "e - 52"] by (simp add: pos_divide_less_eq)
qed

lemma scaled_lower:
  assumes "r \<noteq> 0" and "- 1022 \<le> ilog2 \<bar>r\<bar>" and "e = max (ilog2 \<bar>r\<bar>) (- 1022)"
  shows "2 ^ 52 \<le> \<bar>r\<bar> / pow2 (e - 52)"
proof -
  have pos: "0 < \<bar>r\<bar>" using assms(1) by simp
  have e: "e = ilog2 \<bar>r\<bar>" using assms(2,3) by simp
  from ilog2_bounds [OF pos] have "pow2 e \<le> \<bar>r\<bar>" by (simp add: e)
  then have "2 ^ 52 * pow2 (e - 52) \<le> \<bar>r\<bar>" by (simp only: pow2_52_scale)
  then show ?thesis
    using pow2_pos [of "e - 52"] by (simp add: pos_le_divide_eq)
qed

lemma rnd_error:
  assumes "r \<noteq> 0" and "\<bar>r\<bar> < pow2 1023"
  shows "is_finite (rnd r) \<and> \<bar>to_rat (rnd r) - r\<bar> \<le> pow2 (- 53) * \<bar>r\<bar> + pow2 (- 1075)"
proof -
  define e where "e = max (ilog2 \<bar>r\<bar>) (- 1022)"
  define q where "q = pow2 (e - 52)"
  define n where "n = round_half_even (\<bar>r\<bar> / q)"
  have pos: "0 < \<bar>r\<bar>" using assms(1) by simp
  have qpos: "0 < q" by (simp add: q_def pow2_pos)
  from ilog2_bounds [OF pos] have "pow2 (ilog2 \<bar>r\<bar>) < pow2 1023" using assms(2) by simp
  then have il: "ilog2 \<bar>r\<bar> < 1023" by (simp only: pow2_less_iff)
  then have e_le: "e \<le> 1022" by (simp add: e_def)
  have val: "is_finite (rnd r) \<and> to_rat (rnd r) = sgn r * of_int n * q"
    using e_le by (simp add: rnd_nonzero_unfold [OF assms(1)] e_def [symmetric] q_def [symmetric]
        n_def [symmetric])
  have ne: "\<bar>of_int n - \<bar>r\<bar> / q\<bar> \<le> 1 / 2" unfolding n_def by (rule round_half_even_error)
  have sa: "sgn r * \<bar>r\<bar> = r" by (rule mult_sgn_abs)
  have "(of_int n - \<bar>r\<bar> / q) * q = of_int n * q - \<bar>r\<bar>"
    using qpos by (simp add: algebra_simps)
  then have "sgn r * ((of_int n - \<bar>r\<bar> / q) * q) = sgn r * of_int n * q - sgn r * \<bar>r\<bar>"
    by (simp add: algebra_simps)
  then have "sgn r * of_int n * q - r = sgn r * ((of_int n - \<bar>r\<bar> / q) * q)"
    by (simp only: sa)
  then have "\<bar>sgn r * of_int n * q - r\<bar> = \<bar>of_int n - \<bar>r\<bar> / q\<bar> * q"
    using assms(1) qpos by (simp add: abs_mult abs_sgn_eq)
  also have "\<dots> \<le> 1 / 2 * q" using ne qpos by (intro mult_right_mono) simp_all
  finally have err: "\<bar>sgn r * of_int n * q - r\<bar> \<le> q / 2" by simp
  have "q / 2 \<le> pow2 (- 53) * \<bar>r\<bar> + pow2 (- 1075)"
  proof (cases "- 1022 \<le> ilog2 \<bar>r\<bar>")
    case True
    then have e: "e = ilog2 \<bar>r\<bar>" by (simp add: e_def)
    have "pow2 (- 53) * pow2 e = pow2 (- 53 + e)" by (rule pow2_add [symmetric])
    also have "\<dots> = pow2 ((e - 52) + (- 1))" by (rule arg_cong [of _ _ pow2]) simp
    also have "\<dots> = pow2 (e - 52) * pow2 (- 1)" by (rule pow2_add)
    also have "pow2 (- 1) = 1 / 2" by (simp add: pow2_def)
    finally have "q / 2 = pow2 (- 53) * pow2 e" by (simp add: q_def)
    also have "\<dots> \<le> pow2 (- 53) * \<bar>r\<bar>"
      using ilog2_bounds [OF pos] pow2_pos [of "- 53"] by (simp add: e)
    finally show ?thesis using pow2_pos [of "- 1075"] by simp
  next
    case False
    then have e: "e = - 1022" by (simp add: e_def)
    have "pow2 (- 1075) = pow2 ((- 1074) + (- 1))" by (rule arg_cong [of _ _ pow2]) simp
    also have "\<dots> = pow2 (- 1074) * pow2 (- 1)" by (rule pow2_add)
    also have "pow2 (- 1) = 1 / 2" by (simp add: pow2_def)
    finally have "q / 2 = pow2 (- 1075)" by (simp add: q_def e)
    then show ?thesis using pow2_pos [of "- 53"] pos by simp
  qed
  with err val show ?thesis by simp
qed

lemma rnd_repr:
  assumes "repr v" and "v \<noteq> 0"
  shows "rnd v = Fin v"
proof -
  from assms(1) obtain m k where m: "\<bar>m\<bar> < 2 ^ 53" and k: "- 1074 \<le> k"
    and v: "v = of_int m * pow2 k" and lim: "\<bar>v\<bar> < pow2 1024"
    by (auto simp: repr_def)
  define E where "E = ilog2 \<bar>v\<bar>"
  define e where "e = max E (- 1022)"
  define q where "q = pow2 (e - 52)"
  have pos: "0 < \<bar>v\<bar>" using assms(2) by simp
  have qpos: "0 < q" by (simp add: q_def pow2_pos)
  from ilog2_bounds [OF pos] have Elo: "pow2 E \<le> \<bar>v\<bar>" and Ehi: "\<bar>v\<bar> < pow2 (E + 1)"
    by (simp_all add: E_def)
  have "pow2 E < pow2 1024" using Elo lim by simp
  then have E_lt: "E < 1024" by (simp only: pow2_less_iff)
  then have e_le: "e \<le> 1023" by (simp add: e_def)
  have absv: "\<bar>v\<bar> = of_int \<bar>m\<bar> * pow2 k"
    using pow2_pos [of k] by (simp add: v abs_mult)
  have "of_int \<bar>m\<bar> < (2 ^ 53 :: rat)" using m by (metis of_int_less_numeral_power_cancel_iff)
  then have "\<bar>v\<bar> < 2 ^ 53 * pow2 k"
    using pow2_pos [of k] by (simp add: absv)
  then have "pow2 E < pow2 53 * pow2 k" using Elo by (simp add: pow2_def)
  then have "pow2 E < pow2 (53 + k)" by (simp only: pow2_add)
  then have "E < 53 + k" by (simp only: pow2_less_iff)
  then have ek: "e - 52 \<le> k" using k by (simp add: e_def)
  define j where "j = nat (k - (e - 52))"
  have kj: "k = (e - 52) + int j" using ek by (simp add: j_def)
  have "pow2 k = 2 ^ j * q" by (simp add: kj pow2_add q_def pow2_nat)
  define N where "N = \<bar>m\<bar> * 2 ^ j"
  have "(of_int N :: rat) = of_int \<bar>m\<bar> * 2 ^ j" by (simp add: N_def)
  then have sc: "\<bar>v\<bar> / q = of_int N" using qpos \<open>pow2 k = 2 ^ j * q\<close> by (simp add: absv)
  have n: "round_half_even (\<bar>v\<bar> / q) = N" by (simp only: sc round_half_even_of_int)
  have "\<bar>v\<bar> / q < 2 ^ 53" unfolding q_def
    by (rule scaled_upper [OF assms(2)]) (simp add: e_def E_def)
  then have "(of_int N :: rat) < 2 ^ 53" by (simp only: sc)
  then have N_lt: "N < 2 ^ 53" by (metis of_int_less_numeral_power_cancel_iff)
  have "N \<noteq> 0" using assms(2) by (auto simp: N_def v)
  have restore: "sgn v * of_int N * q = v"
  proof -
    have "of_int N * q = \<bar>v\<bar>" using sc qpos by (simp add: field_simps)
    then have "sgn v * of_int N * q = sgn v * \<bar>v\<bar>" by (simp add: mult.assoc)
    then show ?thesis by (simp add: mult_sgn_abs)
  qed
  show ?thesis
    using e_le N_lt \<open>N \<noteq> 0\<close> restore
    by (simp add: rnd_nonzero_unfold [OF assms(2)] E_def [symmetric] e_def [symmetric]
        q_def [symmetric] n)
qed

lemma rnd_is_repr:
  assumes "rnd r = Fin v"
  shows "repr v"
proof (cases "r = 0")
  case True
  with assms have "v = 0" by (simp add: rnd_def)
  have "\<bar>0::int\<bar> < 2 ^ 53 \<and> - 1074 \<le> (0::int) \<and> (0::rat) = of_int 0 * pow2 0 \<and> \<bar>0::rat\<bar> < pow2 1024"
    using pow2_pos [of 1024] by simp
  then show ?thesis unfolding repr_def \<open>v = 0\<close> by blast
next
  case False
  define e where "e = max (ilog2 \<bar>r\<bar>) (- 1022)"
  define q where "q = pow2 (e - 52)"
  define n where "n = round_half_even (\<bar>r\<bar> / q)"
  have qpos: "0 < q" by (simp add: q_def pow2_pos)
  have up: "\<bar>r\<bar> / q < 2 ^ 53" unfolding q_def by (rule scaled_upper [OF False e_def])
  have "\<bar>r\<bar> / q \<le> of_int (2 ^ 53)" using up by simp
  then have n_le: "n \<le> 2 ^ 53" unfolding n_def by (rule round_half_even_le)
  have "0 \<le> \<bar>r\<bar> / q" using qpos by simp
  then have n_ge: "0 \<le> n" unfolding n_def by (rule round_half_even_nonneg)
  have u: "rnd r =
     (if 1023 < e \<or> (e = 1023 \<and> n = 2 ^ 53) then (if 0 < r then PInf else NInf)
      else if n = 0 then (if 0 < r then Fin 0 else NZero)
      else Fin (sgn r * of_int n * q))"
    by (simp add: rnd_nonzero_unfold [OF False] e_def [symmetric] q_def [symmetric]
        n_def [symmetric])
  have e_ge: "- 1022 \<le> e" by (simp add: e_def)
  show ?thesis
  proof (cases "n = 0")
    case True
    with u assms have "v = 0" by (auto split: if_splits)
    have "\<bar>0::int\<bar> < 2 ^ 53 \<and> - 1074 \<le> (0::int) \<and> (0::rat) = of_int 0 * pow2 0 \<and> \<bar>0::rat\<bar> < pow2 1024"
      using pow2_pos [of 1024] by simp
    then show ?thesis unfolding repr_def \<open>v = 0\<close> by blast
  next
    case n0: False
    from u assms n0 have no: "\<not> (1023 < e \<or> (e = 1023 \<and> n = 2 ^ 53))"
      and v: "v = sgn r * of_int n * q"
      by (auto split: if_splits)
    have sg: "sgn r = 1 \<or> sgn r = - 1" using False by (auto simp: sgn_if)
    show ?thesis
    proof (cases "n = 2 ^ 53")
      case True
      with no have e_lt: "e < 1023" by auto
      have "(of_int n :: rat) = 2 ^ 53" by (simp add: True)
      then have nq: "of_int n * q = pow2 (e + 1)"
        by (simp only: q_def pow2_53_scale)
      have vv: "v = of_int (if 0 < r then 1 else - 1) * pow2 (e + 1)"
        using False by (simp add: v mult.assoc nq sgn_if)
      have "\<bar>v\<bar> = pow2 (e + 1)" using sg pow2_pos [of "e + 1"] by (auto simp: v mult.assoc nq)
      also have "\<dots> < pow2 1024" using e_lt by (intro pow2_strict_mono) simp
      finally have "\<bar>v\<bar> < pow2 1024" .
      moreover have "\<bar>if 0 < r then 1 else - 1 :: int\<bar> < 2 ^ 53" by simp
      moreover have "- 1074 \<le> e + 1" using e_ge by simp
      ultimately show ?thesis unfolding repr_def using vv by blast
    next
      case False
      with n_le have n_lt: "n < 2 ^ 53" by simp
      from no have e_le: "e \<le> 1023" by auto
      have vv: "v = of_int (if 0 < r then n else - n) * pow2 (e - 52)"
        using \<open>r \<noteq> 0\<close> by (simp add: v q_def sgn_if)
      have "(of_int n :: rat) < 2 ^ 53" using n_lt by (metis of_int_less_numeral_power_cancel_iff)
      then have "of_int n * q < 2 ^ 53 * q" using qpos by simp
      also have "\<dots> = pow2 (e + 1)" by (simp only: q_def pow2_53_scale)
      also have "\<dots> \<le> pow2 1024" using e_le by (intro pow2_mono) simp
      finally have "of_int n * q < pow2 1024" .
      moreover have "\<bar>v\<bar> = of_int n * q" using sg n_ge qpos by (auto simp: v abs_mult)
      ultimately have "\<bar>v\<bar> < pow2 1024" by simp
      moreover have "\<bar>if 0 < r then n else - n\<bar> < 2 ^ 53" using n_lt n_ge by simp
      moreover have "- 1074 \<le> e - 52" using e_ge by simp
      ultimately show ?thesis unfolding repr_def using vv by blast
    qed
  qed
qed

lemma repr_double:
  assumes "repr v" and "\<bar>2 * v\<bar> < pow2 1024"
  shows "repr (2 * v)"
proof -
  from assms(1) obtain m k where m: "\<bar>m\<bar> < 2 ^ 53" and k: "- 1074 \<le> k"
    and v: "v = of_int m * pow2 k"
    by (auto simp: repr_def)
  have "2 * v = of_int m * pow2 (k + 1)" by (simp add: v pow2_Suc)
  moreover have "- 1074 \<le> k + 1" using k by simp
  ultimately show ?thesis unfolding repr_def using m assms(2) by blast
qed

lemma repr_intro:
  assumes "\<bar>m\<bar> < 2 ^ 53" and "- 1074 \<le> k" and "\<bar>of_int m * pow2 k\<bar> < pow2 1024"
  shows "repr (of_int m * pow2 k)"
  unfolding repr_def using assms by blast

section \<open>Binary64: the error of one operation\<close>

lemma is_finite_cases:
  assumes "is_finite x"
  shows "x = NZero \<or> (\<exists>a. x = Fin a)"
  using assms by (cases x) simp_all

lemma finite_not_special:
  assumes "is_finite x"
  shows "x \<noteq> NaN" and "\<not> is_inf x"
  using assms by (cases x; simp)+

lemma is_zero_to_rat:
  assumes "is_finite x"
  shows "is_zero x \<longleftrightarrow> to_rat x = 0"
  using assms by (cases x) simp_all

lemma zero_of_finite: "is_finite (zero_of s)" "to_rat (zero_of s) = 0"
  by (simp_all add: zero_of_def)

lemma fneg_finite: "is_finite (fneg y) = is_finite y" "to_rat (fneg y) = - to_rat y"
  by (cases y; simp)+

lemma rnd_error_any:
  assumes "\<bar>r\<bar> < pow2 1023"
  shows "is_finite (rnd r) \<and> \<bar>to_rat (rnd r) - r\<bar> \<le> pow2 (- 53) * \<bar>r\<bar> + pow2 (- 1075)"
proof (cases "r = 0")
  case True
  then show ?thesis using pow2_pos [of "- 1075"] by (simp add: rnd_def less_imp_le)
next
  case False
  then show ?thesis using assms by (rule rnd_error)
qed

lemma exact_result:
  assumes "is_finite z" and "to_rat z = e"
  shows "is_finite z \<and> \<bar>to_rat z - e\<bar> \<le> pow2 (- 53) * \<bar>e\<bar> + pow2 (- 1075)"
proof -
  have "0 \<le> pow2 (- 53) * \<bar>e\<bar> + pow2 (- 1075)"
    using pow2_pos [of "- 53"] pow2_pos [of "- 1075"] by (intro add_nonneg_nonneg) simp_all
  then show ?thesis using assms by simp
qed

lemma fadd_finite_unfold:
  assumes "is_finite x" and "is_finite y"
  shows "fadd x y = (if is_zero x \<and> is_zero y then zero_of (sign_neg x \<and> sign_neg y)
                     else rnd (to_rat x + to_rat y))"
  using finite_not_special [OF assms(1)] finite_not_special [OF assms(2)]
  by (simp add: fadd_def)

lemma fmul_finite_unfold:
  assumes "is_finite x" and "is_finite y"
  shows "fmul x y = (if is_zero x \<or> is_zero y then zero_of (sign_neg x \<noteq> sign_neg y)
                     else rnd (to_rat x * to_rat y))"
  using finite_not_special [OF assms(1)] finite_not_special [OF assms(2)]
  by (simp add: fmul_def)

lemma fdiv_finite_unfold:
  assumes "is_finite x" and "is_finite y" and "\<not> is_zero y"
  shows "fdiv x y = (if is_zero x then zero_of (sign_neg x \<noteq> sign_neg y)
                     else rnd (to_rat x / to_rat y))"
  using finite_not_special [OF assms(1)] finite_not_special [OF assms(2)] assms(3)
  by (simp add: fdiv_def)

lemma fadd_error:
  assumes "is_finite x" and "is_finite y" and "\<bar>to_rat x + to_rat y\<bar> < pow2 1023"
  shows "is_finite (fadd x y)
       \<and> \<bar>to_rat (fadd x y) - (to_rat x + to_rat y)\<bar>
           \<le> pow2 (- 53) * \<bar>to_rat x + to_rat y\<bar> + pow2 (- 1075)"
proof (cases "is_zero x \<and> is_zero y")
  case True
  then have z: "to_rat x + to_rat y = 0" using assms(1,2) by (simp add: is_zero_to_rat)
  have "fadd x y = zero_of (sign_neg x \<and> sign_neg y)"
    unfolding fadd_finite_unfold [OF assms(1,2)] using True by (rule if_P)
  then show ?thesis unfolding z by (intro exact_result) (simp_all add: zero_of_finite)
next
  case False
  have "fadd x y = rnd (to_rat x + to_rat y)"
    unfolding fadd_finite_unfold [OF assms(1,2)] using False by (rule if_not_P)
  then show ?thesis using rnd_error_any [OF assms(3)] by simp
qed

lemma fsub_error:
  assumes "is_finite x" and "is_finite y" and "\<bar>to_rat x - to_rat y\<bar> < pow2 1023"
  shows "is_finite (fsub x y)
       \<and> \<bar>to_rat (fsub x y) - (to_rat x - to_rat y)\<bar>
           \<le> pow2 (- 53) * \<bar>to_rat x - to_rat y\<bar> + pow2 (- 1075)"
  using fadd_error [of x "fneg y"] assms by (simp add: fsub_def fneg_finite)

lemma fmul_error:
  assumes "is_finite x" and "is_finite y" and "\<bar>to_rat x * to_rat y\<bar> < pow2 1023"
  shows "is_finite (fmul x y)
       \<and> \<bar>to_rat (fmul x y) - to_rat x * to_rat y\<bar>
           \<le> pow2 (- 53) * \<bar>to_rat x * to_rat y\<bar> + pow2 (- 1075)"
proof (cases "is_zero x \<or> is_zero y")
  case True
  then have z: "to_rat x * to_rat y = 0" using assms(1,2) by (auto simp: is_zero_to_rat)
  have "fmul x y = zero_of (sign_neg x \<noteq> sign_neg y)"
    unfolding fmul_finite_unfold [OF assms(1,2)] using True by (rule if_P)
  then show ?thesis unfolding z by (intro exact_result) (simp_all add: zero_of_finite)
next
  case False
  have "fmul x y = rnd (to_rat x * to_rat y)"
    unfolding fmul_finite_unfold [OF assms(1,2)] using False by (rule if_not_P)
  then show ?thesis using rnd_error_any [OF assms(3)] by simp
qed

lemma fdiv_error:
  assumes "is_finite x" and "is_finite y" and "to_rat y \<noteq> 0"
    and "\<bar>to_rat x / to_rat y\<bar> < pow2 1023"
  shows "is_finite (fdiv x y)
       \<and> \<bar>to_rat (fdiv x y) - to_rat x / to_rat y\<bar>
           \<le> pow2 (- 53) * \<bar>to_rat x / to_rat y\<bar> + pow2 (- 1075)"
proof -
  have nz: "\<not> is_zero y" using assms(2,3) by (simp add: is_zero_to_rat)
  show ?thesis
  proof (cases "is_zero x")
    case True
    then have z: "to_rat x / to_rat y = 0" using assms(1) by (simp add: is_zero_to_rat)
    have "fdiv x y = zero_of (sign_neg x \<noteq> sign_neg y)"
      unfolding fdiv_finite_unfold [OF assms(1,2) nz] using True by (rule if_P)
    then show ?thesis unfolding z by (intro exact_result) (simp_all add: zero_of_finite)
  next
    case False
    have "fdiv x y = rnd (to_rat x / to_rat y)"
      unfolding fdiv_finite_unfold [OF assms(1,2) nz] using False by (rule if_not_P)
    then show ?thesis using rnd_error_any [OF assms(4)] by simp
  qed
qed

lemma scale_error:
  fixes c n a k :: rat
  assumes "0 < c" and "\<bar>n - a / c\<bar> \<le> k"
  shows "\<bar>n * c - a\<bar> \<le> k * c"
proof -
  have "n * c - a = (n - a / c) * c" using assms(1) by (simp add: field_simps)
  then have "\<bar>n * c - a\<bar> = \<bar>n - a / c\<bar> * c" using assms(1) by (simp add: abs_mult)
  also have "\<dots> \<le> k * c" using assms by (intro mult_right_mono) simp_all
  finally show ?thesis .
qed

lemma div_bound:
  fixes c y k :: rat
  assumes "0 < c" and "\<bar>y\<bar> \<le> k * c"
  shows "\<bar>y / c\<bar> \<le> k"
proof -
  have "\<bar>y / c\<bar> = \<bar>y\<bar> / c" using assms(1) by simp
  also have "\<dots> \<le> k" using assms by (simp add: pos_divide_le_eq)
  finally show ?thesis .
qed

lemma pow2_consts:
  "pow2 (- 53) = 1 / 9007199254740992"
  "pow2 1022 = 4 * pow2 1020"
  "pow2 1023 = 8 * pow2 1020"
  "pow2 (- 1075) \<le> pow2 (- 53)"
  "pow2 1 = 2" "pow2 2 = 4" "pow2 3 = 8"
proof -
  show "pow2 (- 53) = 1 / 9007199254740992" by (simp add: pow2_def)
  have "pow2 1022 = pow2 (2 + 1020)" by simp
  also have "\<dots> = pow2 2 * pow2 1020" by (rule pow2_add)
  also have "pow2 2 = 4" by (simp add: pow2_def)
  finally show "pow2 1022 = 4 * pow2 1020" .
  have "pow2 1023 = pow2 (3 + 1020)" by simp
  also have "\<dots> = pow2 3 * pow2 1020" by (rule pow2_add)
  also have "pow2 3 = 8" by (simp add: pow2_def)
  finally show "pow2 1023 = 8 * pow2 1020" .
  show "pow2 (- 1075) \<le> pow2 (- 53)" by (rule pow2_mono) simp
  show "pow2 1 = 2" "pow2 2 = 4" "pow2 3 = 8" by (simp_all add: pow2_def)
qed

lemma eta_le_range:
  assumes "pow2 (- 1021) \<le> D"
  shows "pow2 (- 1075) \<le> pow2 (- 53) / 2 * D"
proof -
  have "pow2 (- 1075) = pow2 (- 54 + - 1021)" by simp
  also have "\<dots> = pow2 (- 54) * pow2 (- 1021)" by (rule pow2_add)
  also have "\<dots> \<le> pow2 (- 54) * D" using assms pow2_pos [of "- 54"] by simp
  also have "pow2 (- 54) = pow2 (- 53 + - 1)" by simp
  also have "\<dots> = pow2 (- 53) * pow2 (- 1)" by (rule pow2_add)
  also have "pow2 (- 1) = 1 / 2" by (simp add: pow2_def)
  finally show ?thesis by simp
qed

section \<open>ContinuousField: rounding error of the round trip of one entry\<close>

text \<open>
  The bounds lie in a window that keeps every intermediate result away from overflow
  and the range away from underflow: magnitudes of at most \<open>2^1020\<close> and a range of at
  least \<open>2^-1021\<close>. The computed range \<open>max_x - min_x\<close> is then positive and within a
  relative error of \<open>3 * 2^-54\<close> of the exact one. The round trip in mode \<open>ZERO_ONE\<close>
  rounds four times and in mode \<open>MINUSONE_ONE\<close> eight times.
\<close>

lemma window_facts:
  assumes "\<bar>lo\<bar> \<le> pow2 1020" and "\<bar>hi\<bar> \<le> pow2 1020" and "pow2 (- 1021) \<le> hi - lo"
  shows "0 < hi - lo" and "hi - lo \<le> 2 * pow2 1020" and "1 \<le> pow2 1020"
    and "pow2 (- 1075) \<le> 1 / 18014398509481984 * (hi - lo)"
    and "0 < pow2 (- 1075)" and "pow2 (- 1075) \<le> 1 / 9007199254740992"
proof -
  show "0 < hi - lo" using assms(3) pow2_pos [of "- 1021"] by linarith
  show "hi - lo \<le> 2 * pow2 1020" using assms(1,2) by linarith
  have "pow2 0 \<le> pow2 1020" by (rule pow2_mono) simp
  then show "1 \<le> pow2 1020" by (simp add: pow2_0)
  show "pow2 (- 1075) \<le> 1 / 18014398509481984 * (hi - lo)"
    using eta_le_range [OF assms(3)] by (simp add: pow2_consts(1))
  show "0 < pow2 (- 1075)" by (rule pow2_pos)
  show "pow2 (- 1075) \<le> 1 / 9007199254740992"
    using pow2_consts(4) by (simp add: pow2_consts(1))
qed

lemma range_value:
  assumes "\<bar>lo\<bar> \<le> pow2 1020" and "\<bar>hi\<bar> \<le> pow2 1020" and "pow2 (- 1021) \<le> hi - lo"
  shows "is_finite (fsub (Fin hi) (Fin lo))"
    and "\<bar>to_rat (fsub (Fin hi) (Fin lo)) - (hi - lo)\<bar> \<le> 3 / 18014398509481984 * (hi - lo)"
    and "0 < to_rat (fsub (Fin hi) (Fin lo))"
proof -
  note w = window_facts [OF assms]
  have "\<bar>to_rat (Fin hi) - to_rat (Fin lo)\<bar> < pow2 1023"
    using w(1,2,3) by (simp add: pow2_consts(3))
  from fsub_error [OF _ _ this]
  have f: "is_finite (fsub (Fin hi) (Fin lo))"
    and e: "\<bar>to_rat (fsub (Fin hi) (Fin lo)) - (hi - lo)\<bar>
        \<le> 1 / 9007199254740992 * \<bar>hi - lo\<bar> + pow2 (- 1075)"
    by (simp_all add: pow2_consts(1))
  define D where "D = hi - lo"
  define c where "c = to_rat (fsub (Fin hi) (Fin lo))"
  have e': "\<bar>c - D\<bar> \<le> 1 / 9007199254740992 * \<bar>D\<bar> + pow2 (- 1075)"
    and D: "0 < D" "pow2 (- 1075) \<le> 1 / 18014398509481984 * D"
    using e w(1,4) by (simp_all add: D_def c_def)
  have b: "\<bar>c - D\<bar> \<le> 3 / 18014398509481984 * D" using e' D by linarith
  have p: "0 < c" using b D(1) by linarith
  show "is_finite (fsub (Fin hi) (Fin lo))" by (rule f)
  show "\<bar>to_rat (fsub (Fin hi) (Fin lo)) - (hi - lo)\<bar> \<le> 3 / 18014398509481984 * (hi - lo)"
    using b by (simp only: D_def c_def)
  show "0 < to_rat (fsub (Fin hi) (Fin lo))" using p by (simp only: c_def)
qed

lemma zero_one_roundtrip_elem:
  assumes "\<bar>lo\<bar> \<le> pow2 1020" and "\<bar>hi\<bar> \<le> pow2 1020" and "pow2 (- 1021) \<le> hi - lo"
    and "lo \<le> w" and "w \<le> hi"
  shows "is_finite (fadd (fmul (fdiv (fsub (Fin w) (Fin lo)) (fsub (Fin hi) (Fin lo)))
                               (fsub (Fin hi) (Fin lo))) (Fin lo))
       \<and> \<bar>to_rat (fadd (fmul (fdiv (fsub (Fin w) (Fin lo)) (fsub (Fin hi) (Fin lo)))
                               (fsub (Fin hi) (Fin lo))) (Fin lo)) - w\<bar>
           \<le> pow2 (- 48) * (hi - lo) + pow2 (- 52) * \<bar>w\<bar>"
proof -
  note wf = window_facts [OF assms(1-3)]
  note rv = range_value [OF assms(1-3)]
  define P where "P = pow2 1020"
  define eta where "eta = pow2 (- 1075)"
  define D where "D = hi - lo"
  define C where "C = fsub (Fin hi) (Fin lo)"
  define c where "c = to_rat C"
  define A where "A = fsub (Fin w) (Fin lo)"
  define a where "a = to_rat A"
  define N where "N = fdiv A C"
  define n where "n = to_rat N"
  define M where "M = fmul N C"
  define m where "m = to_rat M"
  define R where "R = fadd M (Fin lo)"
  define r where "r = to_rat R"
  define s where "s = w - lo"
  have P1: "1 \<le> P" and Dpos: "0 < D" and DP: "D \<le> 2 * P"
    and eD: "eta \<le> 1 / 18014398509481984 * D" and e0: "0 < eta"
    and eu: "eta \<le> 1 / 9007199254740992"
    using wf by (simp_all add: P_def D_def eta_def)
  have lim: "pow2 1023 = 8 * P" by (simp add: P_def pow2_consts(3))
  have lo: "\<bar>lo\<bar> \<le> P" and hi: "\<bar>hi\<bar> \<le> P" using assms(1,2) by (simp_all add: P_def)
  have s: "0 \<le> s" "s \<le> D" using assms(4,5) by (simp_all add: s_def D_def)
  have finC: "is_finite C" and cD: "\<bar>c - D\<bar> \<le> 3 / 18014398509481984 * D" and cpos: "0 < c"
    using rv by (simp_all add: C_def c_def D_def)
  \<comment> \<open>the difference \<open>x - min\<close>\<close>
  have "\<bar>to_rat (Fin w) - to_rat (Fin lo)\<bar> < pow2 1023"
    using s DP P1 by (simp add: lim s_def)
  from fsub_error [OF _ _ this]
  have finA: "is_finite A" and ea: "\<bar>a - s\<bar> \<le> 1 / 9007199254740992 * \<bar>s\<bar> + eta"
    by (simp_all add: A_def a_def s_def eta_def pow2_consts(1))
  have ea': "\<bar>a - s\<bar> \<le> 3 / 18014398509481984 * D" using ea s eD by linarith
  have a_le: "\<bar>a\<bar> \<le> D + 3 / 18014398509481984 * D" using ea' s by linarith
  have c_le: "c \<le> D + 3 / 18014398509481984 * D" and c_ge: "D - 3 / 18014398509481984 * D \<le> c"
    using cD by linarith+
  \<comment> \<open>the quotient\<close>
  have a2c: "\<bar>a\<bar> \<le> 2 * c" using a_le c_ge Dpos by linarith
  have q2: "\<bar>a / c\<bar> \<le> 2" using cpos a2c by (rule div_bound)
  have "\<bar>to_rat A / to_rat C\<bar> < pow2 1023"
    using q2 P1 by (simp add: lim a_def [symmetric] c_def [symmetric])
  from fdiv_error [OF finA finC _ this] cpos
  have finN: "is_finite N" and en: "\<bar>n - a / c\<bar> \<le> 1 / 9007199254740992 * \<bar>a / c\<bar> + eta"
    by (simp_all add: N_def n_def a_def c_def eta_def pow2_consts(1))
  have "\<bar>n - a / c\<bar> \<le> 3 / 9007199254740992" using en q2 eu by linarith
  from scale_error [OF cpos this]
  have nc: "\<bar>n * c - a\<bar> \<le> 3 / 9007199254740992 * c" .
  have nc': "\<bar>n * c - a\<bar> \<le> 4 / 9007199254740992 * D" using nc c_le Dpos by linarith
  have nc_abs: "\<bar>n * c\<bar> \<le> D + 6 / 9007199254740992 * D" using nc' a_le Dpos by linarith
  \<comment> \<open>the product\<close>
  have "\<bar>n * c\<bar> < 8 * P" using nc_abs DP P1 Dpos by linarith
  then have "\<bar>to_rat N * to_rat C\<bar> < pow2 1023"
    by (simp add: lim n_def c_def)
  from fmul_error [OF finN finC this]
  have finM: "is_finite M" and em: "\<bar>m - n * c\<bar> \<le> 1 / 9007199254740992 * \<bar>n * c\<bar> + eta"
    by (simp_all add: M_def m_def n_def c_def eta_def pow2_consts(1))
  have em': "\<bar>m - n * c\<bar> \<le> 2 / 9007199254740992 * D" using em nc_abs eD Dpos by linarith
  \<comment> \<open>the sum\<close>
  have wP: "\<bar>w\<bar> \<le> P" using assms(4,5) lo hi by linarith
  have ws: "w = s + lo" by (simp add: s_def)
  have mw: "\<bar>m + lo - w\<bar> \<le> 8 / 9007199254740992 * D" using em' nc' ea' ws Dpos by linarith
  have ml: "\<bar>m + lo\<bar> \<le> \<bar>w\<bar> + 8 / 9007199254740992 * D" using mw by linarith
  have "\<bar>m + lo\<bar> < 8 * P" using ml wP DP P1 Dpos by linarith
  then have "\<bar>to_rat M + to_rat (Fin lo)\<bar> < pow2 1023"
    by (simp add: lim m_def)
  from fadd_error [OF finM _ this]
  have finR: "is_finite R" and er: "\<bar>r - (m + lo)\<bar> \<le> 1 / 9007199254740992 * \<bar>m + lo\<bar> + eta"
    by (simp_all add: R_def r_def m_def eta_def pow2_consts(1))
  have "1 / 9007199254740992 * \<bar>m + lo\<bar>
      \<le> 1 / 9007199254740992 * (\<bar>w\<bar> + 8 / 9007199254740992 * D)"
    using ml by (intro mult_left_mono) simp_all
  then have "1 / 9007199254740992 * \<bar>m + lo\<bar>
      \<le> 1 / 9007199254740992 * \<bar>w\<bar> + 1 / 18014398509481984 * D"
    using Dpos by (simp add: algebra_simps)
  then have er': "\<bar>r - (m + lo)\<bar> \<le> 1 / 9007199254740992 * \<bar>w\<bar> + 1 / 9007199254740992 * D"
    using er eD by linarith
  have "\<bar>r - w\<bar> \<le> 9 / 9007199254740992 * D + 1 / 9007199254740992 * \<bar>w\<bar>"
    using er' mw by linarith
  then have "\<bar>r - w\<bar> \<le> 1 / 281474976710656 * D + 1 / 4503599627370496 * \<bar>w\<bar>"
    using Dpos by linarith
  moreover have "pow2 (- 48) = 1 / 281474976710656" "pow2 (- 52) = 1 / 4503599627370496"
    by (simp_all add: pow2_def)
  ultimately have "\<bar>r - w\<bar> \<le> pow2 (- 48) * D + pow2 (- 52) * \<bar>w\<bar>"
    by (simp only:)
  with finR show ?thesis
    unfolding R_def r_def M_def N_def A_def C_def D_def by (rule conjI)
qed

lemma abs_err_const:
  fixes z e k eta :: rat
  assumes "\<bar>z - e\<bar> \<le> 1 / 9007199254740992 * \<bar>e\<bar> + eta"
    and "\<bar>e\<bar> \<le> k" and "eta \<le> 1 / 9007199254740992"
  shows "\<bar>z - e\<bar> \<le> (k + 1) / 9007199254740992"
proof -
  define y where "y = \<bar>e\<bar>"
  have "1 / 9007199254740992 * y \<le> 1 / 9007199254740992 * k"
    using assms(2) unfolding y_def by (intro mult_left_mono) simp_all
  moreover have "\<bar>z - e\<bar> \<le> 1 / 9007199254740992 * y + eta" using assms(1) by (simp add: y_def)
  ultimately have "\<bar>z - e\<bar> \<le> 1 / 9007199254740992 * k + 1 / 9007199254740992"
    using assms(3) by linarith
  then show ?thesis by (simp add: add_divide_distrib)
qed

lemma minusone_one_roundtrip_elem:
  assumes "\<bar>lo\<bar> \<le> pow2 1020" and "\<bar>hi\<bar> \<le> pow2 1020" and "pow2 (- 1021) \<le> hi - lo"
    and "lo \<le> w" and "w \<le> hi"
  shows "is_finite (fadd (fmul (fdiv (fadd (fsub (fdiv (fmul (Fin 2) (fsub (Fin w) (Fin lo)))
                        (fsub (Fin hi) (Fin lo))) (Fin 1)) (Fin 1)) (Fin 2))
                        (fsub (Fin hi) (Fin lo))) (Fin lo))
       \<and> \<bar>to_rat (fadd (fmul (fdiv (fadd (fsub (fdiv (fmul (Fin 2) (fsub (Fin w) (Fin lo)))
                        (fsub (Fin hi) (Fin lo))) (Fin 1)) (Fin 1)) (Fin 2))
                        (fsub (Fin hi) (Fin lo))) (Fin lo)) - w\<bar>
           \<le> pow2 (- 48) * (hi - lo) + pow2 (- 52) * \<bar>w\<bar>"
proof -
  note wf = window_facts [OF assms(1-3)]
  note rv = range_value [OF assms(1-3)]
  define P where "P = pow2 1020"
  define eta where "eta = pow2 (- 1075)"
  define D where "D = hi - lo"
  define C where "C = fsub (Fin hi) (Fin lo)"
  define c where "c = to_rat C"
  define A where "A = fsub (Fin w) (Fin lo)"
  define a where "a = to_rat A"
  define B where "B = fmul (Fin 2) A"
  define b where "b = to_rat B"
  define Q where "Q = fdiv B C"
  define q where "q = to_rat Q"
  define N where "N = fsub Q (Fin 1)"
  define n where "n = to_rat N"
  define Pl where "Pl = fadd N (Fin 1)"
  define p where "p = to_rat Pl"
  define H where "H = fdiv Pl (Fin 2)"
  define h where "h = to_rat H"
  define M where "M = fmul H C"
  define m where "m = to_rat M"
  define R where "R = fadd M (Fin lo)"
  define r where "r = to_rat R"
  define s where "s = w - lo"
  define t where "t = a / c"
  have P1: "1 \<le> P" and Dpos: "0 < D" and DP: "D \<le> 2 * P"
    and eD: "eta \<le> 1 / 18014398509481984 * D" and e0: "0 < eta"
    and eu: "eta \<le> 1 / 9007199254740992"
    using wf by (simp_all add: P_def D_def eta_def)
  have lim: "pow2 1023 = 8 * P" by (simp add: P_def pow2_consts(3))
  have lo: "\<bar>lo\<bar> \<le> P" and hi: "\<bar>hi\<bar> \<le> P" using assms(1,2) by (simp_all add: P_def)
  have s: "0 \<le> s" "s \<le> D" using assms(4,5) by (simp_all add: s_def D_def)
  have finC: "is_finite C" and cD: "\<bar>c - D\<bar> \<le> 3 / 18014398509481984 * D" and cpos: "0 < c"
    using rv by (simp_all add: C_def c_def D_def)
  have c_le: "c \<le> D + 3 / 18014398509481984 * D" and c_ge: "D - 3 / 18014398509481984 * D \<le> c"
    using cD by linarith+
  have Dc: "D \<le> 2 * c" using c_ge Dpos by linarith
  \<comment> \<open>\<open>x - min\<close>\<close>
  have "\<bar>to_rat (Fin w) - to_rat (Fin lo)\<bar> < pow2 1023"
    using s DP P1 by (simp add: lim s_def)
  from fsub_error [OF _ _ this]
  have finA: "is_finite A" and ea: "\<bar>a - s\<bar> \<le> 1 / 9007199254740992 * \<bar>s\<bar> + eta"
    by (simp_all add: A_def a_def s_def eta_def pow2_consts(1))
  have ea': "\<bar>a - s\<bar> \<le> 3 / 18014398509481984 * D" using ea s eD by linarith
  have a_le: "\<bar>a\<bar> \<le> D + 3 / 18014398509481984 * D" using ea' s by linarith
  have a_ge: "- (3 / 18014398509481984 * D) \<le> a" using ea' s by linarith
  have a2c: "\<bar>a\<bar> \<le> 2 * c" using a_le c_ge Dpos by linarith
  have t2: "\<bar>t\<bar> \<le> 2" unfolding t_def using cpos a2c by (rule div_bound)
  \<comment> \<open>\<open>2 * (x - min)\<close>\<close>
  have "\<bar>2 * a\<bar> < 8 * P" using a_le DP P1 Dpos by linarith
  then have "\<bar>to_rat (Fin 2) * to_rat A\<bar> < pow2 1023" by (simp add: lim a_def)
  from fmul_error [OF _ finA this]
  have finB: "is_finite B" and eb: "\<bar>b - 2 * a\<bar> \<le> 1 / 9007199254740992 * \<bar>2 * a\<bar> + eta"
    by (simp_all add: B_def b_def a_def eta_def pow2_consts(1))
  have a2: "\<bar>2 * a\<bar> \<le> 2 * D + 3 / 9007199254740992 * D" using a_le by linarith
  have "1 / 9007199254740992 * \<bar>2 * a\<bar>
      \<le> 1 / 9007199254740992 * (2 * D + 3 / 9007199254740992 * D)"
    using a2 by (intro mult_left_mono) simp_all
  then have "1 / 9007199254740992 * \<bar>2 * a\<bar> \<le> 5 / 18014398509481984 * D"
    using Dpos by (simp add: algebra_simps)
  then have eb': "\<bar>b - 2 * a\<bar> \<le> 3 / 9007199254740992 * D" using eb eD by linarith
  have "\<bar>b - 2 * a\<bar> \<le> 6 / 9007199254740992 * c" using eb' Dc by linarith
  then have bt0: "\<bar>(b - 2 * a) / c\<bar> \<le> 6 / 9007199254740992" using cpos by (intro div_bound)
  have "(b - 2 * a) / c = b / c - 2 * t" by (simp add: t_def diff_divide_distrib)
  with bt0 have bt: "\<bar>b / c - 2 * t\<bar> \<le> 6 / 9007199254740992" by simp
  have bc5: "\<bar>b / c\<bar> \<le> 5" using bt t2 by linarith
  \<comment> \<open>the quotient\<close>
  have "\<bar>to_rat B / to_rat C\<bar> < pow2 1023"
    using bc5 P1 by (simp add: lim b_def [symmetric] c_def [symmetric])
  from fdiv_error [OF finB finC _ this] cpos
  have finQ: "is_finite Q" and eq: "\<bar>q - b / c\<bar> \<le> 1 / 9007199254740992 * \<bar>b / c\<bar> + eta"
    by (simp_all add: Q_def q_def b_def c_def eta_def pow2_consts(1))
  have eq': "\<bar>q - b / c\<bar> \<le> 6 / 9007199254740992"
    using abs_err_const [OF eq bc5 eu] by simp
  have qt: "\<bar>q - 2 * t\<bar> \<le> 12 / 9007199254740992" using eq' bt by linarith
  have q5: "\<bar>q\<bar> \<le> 5" using qt t2 by linarith
  \<comment> \<open>\<open>- 1\<close>\<close>
  have "\<bar>to_rat Q - to_rat (Fin 1)\<bar> < pow2 1023" using q5 P1 by (simp add: lim q_def)
  from fsub_error [OF finQ _ this]
  have finN: "is_finite N" and en: "\<bar>n - (q - 1)\<bar> \<le> 1 / 9007199254740992 * \<bar>q - 1\<bar> + eta"
    by (simp_all add: N_def n_def q_def eta_def pow2_consts(1))
  have q1: "\<bar>q - 1\<bar> \<le> 6" using q5 by linarith
  have en': "\<bar>n - (q - 1)\<bar> \<le> 7 / 9007199254740992"
    using abs_err_const [OF en q1 eu] by simp
  have n7: "\<bar>n + 1\<bar> \<le> 6" using en' q5 by linarith
  \<comment> \<open>\<open>+ 1\<close>\<close>
  have "\<bar>to_rat N + to_rat (Fin 1)\<bar> < pow2 1023" using n7 P1 by (simp add: lim n_def)
  from fadd_error [OF finN _ this]
  have finP: "is_finite Pl" and ep: "\<bar>p - (n + 1)\<bar> \<le> 1 / 9007199254740992 * \<bar>n + 1\<bar> + eta"
    by (simp_all add: Pl_def p_def n_def eta_def pow2_consts(1))
  have ep': "\<bar>p - (n + 1)\<bar> \<le> 7 / 9007199254740992"
    using abs_err_const [OF ep n7 eu] by simp
  have p7: "\<bar>p\<bar> \<le> 7" using ep' n7 by linarith
  \<comment> \<open>\<open>/ 2.0\<close>\<close>
  have "\<bar>to_rat Pl / to_rat (Fin 2)\<bar> < pow2 1023" using p7 P1 by (simp add: lim p_def)
  from fdiv_error [OF finP _ _ this]
  have finH: "is_finite H" and eh: "\<bar>h - p / 2\<bar> \<le> 1 / 9007199254740992 * \<bar>p / 2\<bar> + eta"
    by (simp_all add: H_def h_def p_def eta_def pow2_consts(1))
  have p2: "\<bar>p / 2\<bar> \<le> 4" using p7 by linarith
  have eh': "\<bar>h - p / 2\<bar> \<le> 5 / 9007199254740992"
    using abs_err_const [OF eh p2 eu] by simp
  have ht: "\<bar>h - t\<bar> \<le> 18 / 9007199254740992" using eh' ep' en' qt by linarith
  from scale_error [OF cpos, of h a "18 / 9007199254740992"] ht
  have hc: "\<bar>h * c - a\<bar> \<le> 18 / 9007199254740992 * c" by (simp add: t_def)
  have hc': "\<bar>h * c - a\<bar> \<le> 19 / 9007199254740992 * D" using hc c_le Dpos by linarith
  have hc_abs: "\<bar>h * c\<bar> \<le> D + 21 / 9007199254740992 * D" using hc' a_le Dpos by linarith
  \<comment> \<open>the product\<close>
  have "\<bar>h * c\<bar> < 8 * P" using hc_abs DP P1 Dpos by linarith
  then have "\<bar>to_rat H * to_rat C\<bar> < pow2 1023" by (simp add: lim h_def c_def)
  from fmul_error [OF finH finC this]
  have finM: "is_finite M" and em: "\<bar>m - h * c\<bar> \<le> 1 / 9007199254740992 * \<bar>h * c\<bar> + eta"
    by (simp_all add: M_def m_def h_def c_def eta_def pow2_consts(1))
  have em': "\<bar>m - h * c\<bar> \<le> 2 / 9007199254740992 * D" using em hc_abs eD Dpos by linarith
  \<comment> \<open>the sum\<close>
  have wP: "\<bar>w\<bar> \<le> P" using assms(4,5) lo hi by linarith
  have ws: "w = s + lo" by (simp add: s_def)
  have mw: "\<bar>m + lo - w\<bar> \<le> 23 / 9007199254740992 * D" using em' hc' ea' ws Dpos by linarith
  have ml: "\<bar>m + lo\<bar> \<le> \<bar>w\<bar> + 23 / 9007199254740992 * D" using mw by linarith
  have "\<bar>m + lo\<bar> < 8 * P" using ml wP DP P1 Dpos by linarith
  then have "\<bar>to_rat M + to_rat (Fin lo)\<bar> < pow2 1023" by (simp add: lim m_def)
  from fadd_error [OF finM _ this]
  have finR: "is_finite R" and er: "\<bar>r - (m + lo)\<bar> \<le> 1 / 9007199254740992 * \<bar>m + lo\<bar> + eta"
    by (simp_all add: R_def r_def m_def eta_def pow2_consts(1))
  have "1 / 9007199254740992 * \<bar>m + lo\<bar>
      \<le> 1 / 9007199254740992 * (\<bar>w\<bar> + 23 / 9007199254740992 * D)"
    using ml by (intro mult_left_mono) simp_all
  then have "1 / 9007199254740992 * \<bar>m + lo\<bar>
      \<le> 1 / 9007199254740992 * \<bar>w\<bar> + 1 / 18014398509481984 * D"
    using Dpos by (simp add: algebra_simps)
  then have er': "\<bar>r - (m + lo)\<bar> \<le> 1 / 9007199254740992 * \<bar>w\<bar> + 1 / 9007199254740992 * D"
    using er eD by linarith
  have "\<bar>r - w\<bar> \<le> 24 / 9007199254740992 * D + 1 / 9007199254740992 * \<bar>w\<bar>"
    using er' mw by linarith
  then have "\<bar>r - w\<bar> \<le> 1 / 281474976710656 * D + 1 / 4503599627370496 * \<bar>w\<bar>"
    using Dpos by linarith
  moreover have "pow2 (- 48) = 1 / 281474976710656" "pow2 (- 52) = 1 / 4503599627370496"
    by (simp_all add: pow2_def)
  ultimately have "\<bar>r - w\<bar> \<le> pow2 (- 48) * D + pow2 (- 52) * \<bar>w\<bar>"
    by (simp only:)
  with finR show ?thesis
    unfolding R_def r_def M_def H_def Pl_def N_def Q_def B_def A_def C_def D_def by (rule conjI)
qed

section \<open>ContinuousField: rounding error of \<open>normalize\<close> on one entry\<close>

lemma abs_err_lin:
  fixes z e k1 k0 T eta :: rat
  assumes "\<bar>z - e\<bar> \<le> 1 / 9007199254740992 * \<bar>e\<bar> + eta"
    and "\<bar>e\<bar> \<le> k1 * T + k0" and "eta \<le> 1 / 9007199254740992"
  shows "\<bar>z - e\<bar> \<le> k1 / 9007199254740992 * T + (k0 + 1) / 9007199254740992"
proof -
  define y where "y = \<bar>e\<bar>"
  define g where "g = k1 * T + k0"
  have "1 / 9007199254740992 * y \<le> 1 / 9007199254740992 * g"
    using assms(2) unfolding y_def g_def by (intro mult_left_mono) simp_all
  moreover have "\<bar>z - e\<bar> \<le> 1 / 9007199254740992 * y + eta" using assms(1) by (simp add: y_def)
  ultimately have "\<bar>z - e\<bar> \<le> 1 / 9007199254740992 * g + 1 / 9007199254740992"
    using assms(3) by linarith
  also have "\<dots> = k1 / 9007199254740992 * T + (k0 + 1) / 9007199254740992"
    by (simp add: g_def add_divide_distrib algebra_simps)
  finally show ?thesis .
qed

lemma zero_one_affine_elem:
  assumes "\<bar>lo\<bar> \<le> pow2 1020" and "\<bar>hi\<bar> \<le> pow2 1020" and "pow2 (- 1021) \<le> hi - lo"
    and "\<bar>w\<bar> \<le> pow2 1020" and "\<bar>(w - lo) / (hi - lo)\<bar> \<le> pow2 1020"
  shows "is_finite (fdiv (fsub (Fin w) (Fin lo)) (fsub (Fin hi) (Fin lo)))
       \<and> \<bar>to_rat (fdiv (fsub (Fin w) (Fin lo)) (fsub (Fin hi) (Fin lo)))
            - (w - lo) / (hi - lo)\<bar>
           \<le> pow2 (- 48) * (1 + \<bar>(w - lo) / (hi - lo)\<bar>)"
proof -
  note wf = window_facts [OF assms(1-3)]
  note rv = range_value [OF assms(1-3)]
  define P where "P = pow2 1020"
  define eta where "eta = pow2 (- 1075)"
  define D where "D = hi - lo"
  define C where "C = fsub (Fin hi) (Fin lo)"
  define c where "c = to_rat C"
  define A where "A = fsub (Fin w) (Fin lo)"
  define a where "a = to_rat A"
  define N where "N = fdiv A C"
  define n where "n = to_rat N"
  define s where "s = w - lo"
  define t where "t = s / D"
  define T where "T = \<bar>t\<bar>"
  define TD where "TD = T * D"
  define Tc where "Tc = T * c"
  have P1: "1 \<le> P" and Dpos: "0 < D" and DP: "D \<le> 2 * P"
    and eD: "eta \<le> 1 / 18014398509481984 * D" and e0: "0 < eta"
    and eu: "eta \<le> 1 / 9007199254740992"
    using wf by (simp_all add: P_def D_def eta_def)
  have lim: "pow2 1023 = 8 * P" by (simp add: P_def pow2_consts(3))
  have lo: "\<bar>lo\<bar> \<le> P" and wP: "\<bar>w\<bar> \<le> P" using assms(1,4) by (simp_all add: P_def)
  have TP: "T \<le> P" using assms(5) by (simp add: T_def t_def s_def D_def P_def)
  have T0: "0 \<le> T" by (simp add: T_def)
  have finC: "is_finite C" and cD: "\<bar>c - D\<bar> \<le> 3 / 18014398509481984 * D" and cpos: "0 < c"
    using rv by (simp_all add: C_def c_def D_def)
  have Dc: "D \<le> 2 * c" using cD Dpos by linarith
  have sP: "\<bar>s\<bar> \<le> 2 * P" using lo wP unfolding s_def by linarith
  have sT: "\<bar>s\<bar> = TD" using Dpos by (simp add: TD_def T_def t_def abs_divide)
  have tD: "t * D = s" using Dpos by (simp add: t_def)
  have TD_le: "TD \<le> 2 * Tc"
  proof -
    have "T * D \<le> T * (2 * c)" using Dc T0 by (rule mult_left_mono)
    then show ?thesis by (simp add: TD_def Tc_def)
  qed
  have TD0: "0 \<le> TD" using T0 Dpos by (simp add: TD_def)
  \<comment> \<open>\<open>x - min\<close>\<close>
  have "\<bar>to_rat (Fin w) - to_rat (Fin lo)\<bar> < pow2 1023"
    using sP P1 by (simp add: lim s_def)
  from fsub_error [OF _ _ this]
  have finA: "is_finite A" and ea: "\<bar>a - s\<bar> \<le> 1 / 9007199254740992 * \<bar>s\<bar> + eta"
    by (simp_all add: A_def a_def s_def eta_def pow2_consts(1))
  have ea': "\<bar>a - s\<bar> \<le> 1 / 9007199254740992 * TD + 1 / 18014398509481984 * D"
    using ea eD by (simp add: sT) 
  \<comment> \<open>distance of \<open>a\<close> from \<open>t * c\<close>\<close>
  have "\<bar>t * (D - c)\<bar> = T * \<bar>D - c\<bar>" by (simp add: abs_mult T_def)
  also have "\<dots> \<le> T * (3 / 18014398509481984 * D)"
    using cD T0 by (intro mult_left_mono) (simp_all add: abs_minus_commute)
  also have "\<dots> = 3 / 18014398509481984 * TD" by (simp add: TD_def)
  finally have tdc: "\<bar>t * (D - c)\<bar> \<le> 3 / 18014398509481984 * TD" .
  have split: "a - t * c = (a - s) + t * (D - c)"
    using tD by (simp add: algebra_simps)
  have "\<bar>a - t * c\<bar> \<le> 5 / 18014398509481984 * TD + 1 / 18014398509481984 * D"
    unfolding split using ea' tdc by linarith
  then have atc: "\<bar>a - t * c\<bar> \<le> 5 / 9007199254740992 * Tc + 1 / 9007199254740992 * c"
    using TD_le Dc by linarith
  have "5 / 9007199254740992 * Tc + 1 / 9007199254740992 * c
      = (5 / 9007199254740992 * T + 1 / 9007199254740992) * c"
    by (simp add: Tc_def algebra_simps)
  with atc have "\<bar>a - t * c\<bar> \<le> (5 / 9007199254740992 * T + 1 / 9007199254740992) * c"
    by simp
  from div_bound [OF cpos this]
  have "\<bar>(a - t * c) / c\<bar> \<le> 5 / 9007199254740992 * T + 1 / 9007199254740992" .
  moreover have "(a - t * c) / c = a / c - t" using cpos by (simp add: field_simps)
  ultimately have act: "\<bar>a / c - t\<bar> \<le> 5 / 9007199254740992 * T + 1 / 9007199254740992"
    by simp
  have ac_abs: "\<bar>a / c\<bar> \<le> 2 * T + 1" using act unfolding T_def by linarith
  \<comment> \<open>the quotient\<close>
  have "\<bar>a / c\<bar> < 8 * P" using ac_abs TP P1 by linarith
  then have "\<bar>to_rat A / to_rat C\<bar> < pow2 1023"
    by (simp add: lim a_def [symmetric] c_def [symmetric])
  from fdiv_error [OF finA finC _ this] cpos
  have finN: "is_finite N" and en: "\<bar>n - a / c\<bar> \<le> 1 / 9007199254740992 * \<bar>a / c\<bar> + eta"
    by (simp_all add: N_def n_def a_def c_def eta_def pow2_consts(1))
  from abs_err_lin [OF en ac_abs eu]
  have en': "\<bar>n - a / c\<bar> \<le> 2 / 9007199254740992 * T + 2 / 9007199254740992" by simp
  have "\<bar>n - t\<bar> \<le> 7 / 9007199254740992 * T + 3 / 9007199254740992"
    using en' act by linarith
  then have "\<bar>n - t\<bar> \<le> 1 / 281474976710656 + 1 / 281474976710656 * T"
    using T0 by linarith
  then have "\<bar>n - t\<bar> \<le> 1 / 281474976710656 * (1 + T)" by (simp add: algebra_simps)
  moreover have "pow2 (- 48) = 1 / 281474976710656" by (simp add: pow2_def)
  ultimately have "\<bar>n - t\<bar> \<le> pow2 (- 48) * (1 + T)" by (simp only:)
  with finN show ?thesis
    unfolding n_def N_def A_def C_def T_def t_def s_def D_def by (rule conjI)
qed

lemma minusone_one_affine_elem:
  assumes "\<bar>lo\<bar> \<le> pow2 1020" and "\<bar>hi\<bar> \<le> pow2 1020" and "pow2 (- 1021) \<le> hi - lo"
    and "\<bar>w\<bar> \<le> pow2 1020" and "\<bar>(w - lo) / (hi - lo)\<bar> \<le> pow2 1020"
  shows "is_finite (fsub (fdiv (fmul (Fin 2) (fsub (Fin w) (Fin lo))) (fsub (Fin hi) (Fin lo))) (Fin 1))
       \<and> \<bar>to_rat (fsub (fdiv (fmul (Fin 2) (fsub (Fin w) (Fin lo))) (fsub (Fin hi) (Fin lo))) (Fin 1))
            - (2 * ((w - lo) / (hi - lo)) - 1)\<bar>
           \<le> pow2 (- 48) * (1 + \<bar>(w - lo) / (hi - lo)\<bar>)"
proof -
  note wf = window_facts [OF assms(1-3)]
  note rv = range_value [OF assms(1-3)]
  define P where "P = pow2 1020"
  define eta where "eta = pow2 (- 1075)"
  define D where "D = hi - lo"
  define C where "C = fsub (Fin hi) (Fin lo)"
  define c where "c = to_rat C"
  define A where "A = fsub (Fin w) (Fin lo)"
  define a where "a = to_rat A"
  define B where "B = fmul (Fin 2) A"
  define b where "b = to_rat B"
  define Q where "Q = fdiv B C"
  define q where "q = to_rat Q"
  define N where "N = fsub Q (Fin 1)"
  define n where "n = to_rat N"
  define s where "s = w - lo"
  define t where "t = s / D"
  define T where "T = \<bar>t\<bar>"
  define TD where "TD = T * D"
  define Tc where "Tc = T * c"
  define a2 where "a2 = 2 * a"
  define ac where "ac = a / c"
  define bc where "bc = b / c"
  define q1 where "q1 = q - 1"
  have P1: "1 \<le> P" and Dpos: "0 < D" and DP: "D \<le> 2 * P"
    and eD: "eta \<le> 1 / 18014398509481984 * D" and e0: "0 < eta"
    and eu: "eta \<le> 1 / 9007199254740992"
    using wf by (simp_all add: P_def D_def eta_def)
  have lim: "pow2 1023 = 8 * P" by (simp add: P_def pow2_consts(3))
  have lo: "\<bar>lo\<bar> \<le> P" and wP: "\<bar>w\<bar> \<le> P" using assms(1,4) by (simp_all add: P_def)
  have TP: "T \<le> P" using assms(5) by (simp add: T_def t_def s_def D_def P_def)
  have T0: "0 \<le> T" by (simp add: T_def)
  have finC: "is_finite C" and cD: "\<bar>c - D\<bar> \<le> 3 / 18014398509481984 * D" and cpos: "0 < c"
    using rv by (simp_all add: C_def c_def D_def)
  have Dc: "D \<le> 2 * c" using cD Dpos by linarith
  have sP: "\<bar>s\<bar> \<le> 2 * P" using lo wP unfolding s_def by linarith
  have sT: "\<bar>s\<bar> = TD" using Dpos by (simp add: TD_def T_def t_def abs_divide)
  have tD: "t * D = s" using Dpos by (simp add: t_def)
  have TD_le: "TD \<le> 2 * Tc"
  proof -
    have "T * D \<le> T * (2 * c)" using Dc T0 by (rule mult_left_mono)
    then show ?thesis by (simp add: TD_def Tc_def)
  qed
  have Tc0: "0 \<le> Tc" using T0 cpos by (simp add: Tc_def)
  \<comment> \<open>\<open>x - min\<close>\<close>
  have "\<bar>to_rat (Fin w) - to_rat (Fin lo)\<bar> < pow2 1023"
    using sP P1 by (simp add: lim s_def)
  from fsub_error [OF _ _ this]
  have finA: "is_finite A" and ea: "\<bar>a - s\<bar> \<le> 1 / 9007199254740992 * \<bar>s\<bar> + eta"
    by (simp_all add: A_def a_def s_def eta_def pow2_consts(1))
  have ea': "\<bar>a - s\<bar> \<le> 1 / 9007199254740992 * TD + 1 / 18014398509481984 * D"
    using ea eD by (simp add: sT)
  have aP: "\<bar>a\<bar> \<le> 3 * P"
  proof -
    define y where "y = \<bar>s\<bar>"
    have "\<bar>a - s\<bar> \<le> 1 / 9007199254740992 * y + eta" using ea by (simp add: y_def)
    moreover have "y \<le> 2 * P" using sP by (simp add: y_def)
    moreover have "\<bar>a\<bar> \<le> \<bar>a - s\<bar> + y" unfolding y_def by linarith
    ultimately show ?thesis using eu P1 by linarith
  qed
  \<comment> \<open>distance of \<open>a\<close> from \<open>t * c\<close>\<close>
  have "\<bar>t * (D - c)\<bar> = T * \<bar>D - c\<bar>" by (simp add: abs_mult T_def)
  also have "\<dots> \<le> T * (3 / 18014398509481984 * D)"
    using cD T0 by (intro mult_left_mono) (simp_all add: abs_minus_commute)
  also have "\<dots> = 3 / 18014398509481984 * TD" by (simp add: TD_def)
  finally have tdc: "\<bar>t * (D - c)\<bar> \<le> 3 / 18014398509481984 * TD" .
  have split: "a - t * c = (a - s) + t * (D - c)"
    using tD by (simp add: algebra_simps)
  have "\<bar>a - t * c\<bar> \<le> 5 / 18014398509481984 * TD + 1 / 18014398509481984 * D"
    unfolding split using ea' tdc by linarith
  then have atc: "\<bar>a - t * c\<bar> \<le> 5 / 9007199254740992 * Tc + 1 / 9007199254740992 * c"
    using TD_le Dc by linarith
  have "5 / 9007199254740992 * Tc + 1 / 9007199254740992 * c
      = (5 / 9007199254740992 * T + 1 / 9007199254740992) * c"
    by (simp add: Tc_def algebra_simps)
  with atc have "\<bar>a - t * c\<bar> \<le> (5 / 9007199254740992 * T + 1 / 9007199254740992) * c"
    by simp
  from div_bound [OF cpos this]
  have "\<bar>(a - t * c) / c\<bar> \<le> 5 / 9007199254740992 * T + 1 / 9007199254740992" .
  moreover have "(a - t * c) / c = ac - t" using cpos by (simp add: field_simps ac_def)
  ultimately have act: "\<bar>ac - t\<bar> \<le> 5 / 9007199254740992 * T + 1 / 9007199254740992"
    by simp
  have ac_abs: "\<bar>ac\<bar> \<le> 2 * T + 1" using act unfolding T_def by linarith
  have a_c: "\<bar>a\<bar> \<le> 2 * Tc + c"
  proof -
    have "\<bar>a\<bar> = \<bar>ac\<bar> * c" using cpos by (simp add: ac_def abs_divide)
    also have "\<dots> \<le> (2 * T + 1) * c" using ac_abs cpos by (intro mult_right_mono) simp_all
    also have "\<dots> = 2 * Tc + c" by (simp add: Tc_def algebra_simps)
    finally show ?thesis .
  qed
  \<comment> \<open>\<open>2 * (x - min)\<close>\<close>
  have a2_abs: "\<bar>a2\<bar> \<le> 4 * Tc + 2 * c" using a_c unfolding a2_def by linarith
  have "\<bar>a2\<bar> < 8 * P" using aP P1 unfolding a2_def by linarith
  then have "\<bar>to_rat (Fin 2) * to_rat A\<bar> < pow2 1023"
    by (simp add: lim a_def [symmetric] a2_def)
  from fmul_error [OF _ finA this]
  have finB: "is_finite B" and eb: "\<bar>b - a2\<bar> \<le> 1 / 9007199254740992 * \<bar>a2\<bar> + eta"
    by (simp_all add: B_def b_def a_def a2_def eta_def pow2_consts(1))
  have eb': "\<bar>b - a2\<bar> \<le> 4 / 9007199254740992 * Tc + 3 / 9007199254740992 * c"
  proof -
    define y where "y = \<bar>a2\<bar>"
    have "\<bar>b - a2\<bar> \<le> 1 / 9007199254740992 * y + eta" using eb by (simp add: y_def)
    moreover have "y \<le> 4 * Tc + 2 * c" using a2_abs by (simp add: y_def)
    ultimately show ?thesis using eD Dc by linarith
  qed
  have "4 / 9007199254740992 * Tc + 3 / 9007199254740992 * c
      = (4 / 9007199254740992 * T + 3 / 9007199254740992) * c"
    by (simp add: Tc_def algebra_simps)
  with eb' have "\<bar>b - a2\<bar> \<le> (4 / 9007199254740992 * T + 3 / 9007199254740992) * c"
    by simp
  from div_bound [OF cpos this]
  have "\<bar>(b - a2) / c\<bar> \<le> 4 / 9007199254740992 * T + 3 / 9007199254740992" .
  moreover have "(b - a2) / c = bc - 2 * ac"
    using cpos by (simp add: field_simps bc_def ac_def a2_def)
  ultimately have bca: "\<bar>bc - 2 * ac\<bar> \<le> 4 / 9007199254740992 * T + 3 / 9007199254740992"
    by simp
  have bct: "\<bar>bc - 2 * t\<bar> \<le> 14 / 9007199254740992 * T + 5 / 9007199254740992"
    using bca act by linarith
  have bc_abs: "\<bar>bc\<bar> \<le> 3 * T + 1" using bct T0 unfolding T_def by linarith
  \<comment> \<open>the quotient\<close>
  have "\<bar>bc\<bar> < 8 * P" using bc_abs TP P1 by linarith
  then have "\<bar>to_rat B / to_rat C\<bar> < pow2 1023"
    by (simp add: lim b_def [symmetric] c_def [symmetric] bc_def)
  from fdiv_error [OF finB finC _ this] cpos
  have finQ: "is_finite Q" and eq: "\<bar>q - bc\<bar> \<le> 1 / 9007199254740992 * \<bar>bc\<bar> + eta"
    by (simp_all add: Q_def q_def b_def c_def bc_def eta_def pow2_consts(1))
  from abs_err_lin [OF eq bc_abs eu]
  have eq': "\<bar>q - bc\<bar> \<le> 3 / 9007199254740992 * T + 2 / 9007199254740992" by simp
  have qt: "\<bar>q - 2 * t\<bar> \<le> 17 / 9007199254740992 * T + 7 / 9007199254740992"
    using eq' bct by linarith
  have q1_abs: "\<bar>q1\<bar> \<le> 3 * T + 2" using qt T0 unfolding T_def q1_def by linarith
  \<comment> \<open>minus one\<close>
  have "\<bar>q1\<bar> < 8 * P" using q1_abs TP P1 by linarith
  then have "\<bar>to_rat Q - to_rat (Fin 1)\<bar> < pow2 1023"
    by (simp add: lim q_def [symmetric] q1_def)
  from fsub_error [OF finQ _ this]
  have finN: "is_finite N" and en: "\<bar>n - q1\<bar> \<le> 1 / 9007199254740992 * \<bar>q1\<bar> + eta"
    by (simp_all add: N_def n_def q_def q1_def eta_def pow2_consts(1))
  from abs_err_lin [OF en q1_abs eu]
  have en': "\<bar>n - q1\<bar> \<le> 3 / 9007199254740992 * T + 3 / 9007199254740992" by simp
  have "\<bar>n - (2 * t - 1)\<bar> \<le> 20 / 9007199254740992 * T + 10 / 9007199254740992"
    using en' qt unfolding q1_def by linarith
  then have "\<bar>n - (2 * t - 1)\<bar> \<le> 1 / 281474976710656 + 1 / 281474976710656 * T"
    using T0 by linarith
  then have "\<bar>n - (2 * t - 1)\<bar> \<le> 1 / 281474976710656 * (1 + T)"
    by (simp add: algebra_simps)
  moreover have "pow2 (- 48) = 1 / 281474976710656" by (simp add: pow2_def)
  ultimately have "\<bar>n - (2 * t - 1)\<bar> \<le> pow2 (- 48) * (1 + T)" by (simp only:)
  with finN show ?thesis
    unfolding n_def N_def Q_def B_def A_def C_def T_def t_def s_def D_def by (rule conjI)
qed

section \<open>Binary64: exact results\<close>

lemma fadd_Fin: "fadd (Fin a) (Fin b) = (if a = 0 \<and> b = 0 then Fin 0 else rnd (a + b))"
  by (simp add: fadd_def zero_of_def)

lemma fsub_Fin: "b \<noteq> 0 \<Longrightarrow> fsub (Fin a) (Fin b) = rnd (a - b)"
  by (simp add: fsub_def fadd_def)

lemma fsub_Fin_zero: "a \<noteq> 0 \<Longrightarrow> fsub (Fin a) (Fin 0) = rnd a"
  by (simp add: fsub_def fadd_def)

lemma fmul_Fin: "a \<noteq> 0 \<Longrightarrow> b \<noteq> 0 \<Longrightarrow> fmul (Fin a) (Fin b) = rnd (a * b)"
  by (simp add: fmul_def)

lemma fmul_Fin_zero: "0 \<le> a \<Longrightarrow> fmul (Fin a) (Fin 0) = Fin 0"
  by (simp add: fmul_def zero_of_def)

lemma fdiv_Fin: "a \<noteq> 0 \<Longrightarrow> b \<noteq> 0 \<Longrightarrow> fdiv (Fin a) (Fin b) = rnd (a / b)"
  by (simp add: fdiv_def)

lemma fdiv_Fin_zero: "0 < b \<Longrightarrow> fdiv (Fin 0) (Fin b) = Fin 0"
  by (simp add: fdiv_def zero_of_def)

lemma rnd_0: "rnd 0 = Fin 0"
  by (simp add: rnd_def)

lemma fsub_self: "fsub (Fin v) (Fin v) = Fin 0"
  by (simp add: fsub_def fadd_def zero_of_def rnd_def)

lemma pow2_1024_gt: "2 ^ 53 \<le> pow2 1024"
proof -
  have "pow2 53 \<le> pow2 1024" by (rule pow2_mono) simp
  then show ?thesis by (simp add: pow2_def)
qed

lemma rnd_int:
  assumes "\<bar>m\<bar> < 2 ^ 53" and "m \<noteq> 0"
  shows "rnd (of_int m) = Fin (of_int m)"
proof -
  have "\<bar>(of_int m :: rat)\<bar> < 2 ^ 53"
  proof -
    have "(of_int \<bar>m\<bar> :: rat) < of_int (2 ^ 53)" using assms(1) by (simp only: of_int_less_iff)
    then show ?thesis by simp
  qed
  then have "\<bar>of_int m * pow2 0\<bar> < pow2 1024" using pow2_1024_gt by (simp add: pow2_0)
  from repr_intro [OF assms(1) _ this] have "repr (of_int m)" by (simp add: pow2_0)
  then show ?thesis using assms(2) by (intro rnd_repr) simp_all
qed

lemma rnd_small_ints: "rnd 1 = Fin 1" "rnd 2 = Fin 2" "rnd (- 1) = Fin (- 1)"
  using rnd_int [of 1] rnd_int [of 2] rnd_int [of "- 1"] by simp_all

lemma range_Fin:
  assumes "\<bar>lo\<bar> \<le> pow2 1020" and "\<bar>hi\<bar> \<le> pow2 1020" and "pow2 (- 1021) \<le> hi - lo"
  obtains c where "fsub (Fin hi) (Fin lo) = Fin c" and "0 < c" and "repr c" and "\<bar>2 * c\<bar> < pow2 1024"
proof -
  note rv = range_value [OF assms]
  note wf = window_facts [OF assms]
  from rv(1,3) obtain c where c: "fsub (Fin hi) (Fin lo) = Fin c"
    by (cases "fsub (Fin hi) (Fin lo)") simp_all
  with rv(3) have pos: "0 < c" by simp
  have ne: "hi \<noteq> lo" using wf(1) by simp
  have "fsub (Fin hi) (Fin lo) = rnd (hi - lo)"
    using ne by (cases "lo = 0") (simp_all add: fsub_Fin fsub_Fin_zero)
  with c have "rnd (hi - lo) = Fin c" by simp
  then have r: "repr c" by (rule rnd_is_repr)
  define D where "D = hi - lo"
  define P where "P = pow2 1020"
  have "\<bar>c - D\<bar> \<le> 3 / 18014398509481984 * D" "0 < D" "D \<le> 2 * P" "1 \<le> P"
    using rv(2) wf(1,2,3) c by (simp_all add: D_def P_def)
  then have "\<bar>2 * c\<bar> < 16 * P" by linarith
  moreover have "pow2 1024 = 16 * P"
  proof -
    have "pow2 1024 = pow2 (4 + 1020)" by simp
    also have "\<dots> = pow2 4 * pow2 1020" by (rule pow2_add)
    also have "pow2 4 = 16" by (simp add: pow2_def)
    finally show ?thesis by (simp add: P_def)
  qed
  ultimately have "\<bar>2 * c\<bar> < pow2 1024" by simp
  with c pos r show ?thesis by (rule that)
qed

lemma zero_one_boundary_elem:
  assumes "\<bar>lo\<bar> \<le> pow2 1020" and "\<bar>hi\<bar> \<le> pow2 1020" and "pow2 (- 1021) \<le> hi - lo"
  shows "fdiv (fsub (Fin lo) (Fin lo)) (fsub (Fin hi) (Fin lo)) = Fin 0"
    and "fdiv (fsub (Fin hi) (Fin lo)) (fsub (Fin hi) (Fin lo)) = Fin 1"
proof -
  from range_Fin [OF assms] obtain c where c: "fsub (Fin hi) (Fin lo) = Fin c" and pos: "0 < c"
    by blast
  show "fdiv (fsub (Fin lo) (Fin lo)) (fsub (Fin hi) (Fin lo)) = Fin 0"
    using pos by (simp add: c fsub_self fdiv_Fin_zero)
  show "fdiv (fsub (Fin hi) (Fin lo)) (fsub (Fin hi) (Fin lo)) = Fin 1"
    using pos by (simp add: c fdiv_Fin rnd_small_ints)
qed

lemma minusone_one_boundary_elem:
  assumes "\<bar>lo\<bar> \<le> pow2 1020" and "\<bar>hi\<bar> \<le> pow2 1020" and "pow2 (- 1021) \<le> hi - lo"
  shows "fsub (fdiv (fmul (Fin 2) (fsub (Fin lo) (Fin lo))) (fsub (Fin hi) (Fin lo))) (Fin 1) = Fin (- 1)"
    and "fsub (fdiv (fmul (Fin 2) (fsub (Fin hi) (Fin lo))) (fsub (Fin hi) (Fin lo))) (Fin 1) = Fin 1"
proof -
  from range_Fin [OF assms] obtain c where c: "fsub (Fin hi) (Fin lo) = Fin c" and pos: "0 < c"
    and r: "repr c" and lim: "\<bar>2 * c\<bar> < pow2 1024"
    by blast
  have one: "fsub (Fin 2) (Fin 1) = Fin 1" by (simp add: fsub_Fin rnd_small_ints)
  have mone: "fsub (Fin 0) (Fin 1) = Fin (- 1)" by (simp add: fsub_Fin rnd_small_ints)
  show "fsub (fdiv (fmul (Fin 2) (fsub (Fin lo) (Fin lo))) (fsub (Fin hi) (Fin lo))) (Fin 1) = Fin (- 1)"
    using pos by (simp add: c fsub_self fmul_Fin_zero fdiv_Fin_zero mone)
  have "rnd (2 * c) = Fin (2 * c)" using repr_double [OF r lim] pos by (intro rnd_repr) simp_all
  then have "fmul (Fin 2) (Fin c) = Fin (2 * c)" using pos by (simp add: fmul_Fin)
  moreover have "fdiv (Fin (2 * c)) (Fin c) = Fin 2" using pos by (simp add: fdiv_Fin rnd_small_ints)
  ultimately show "fsub (fdiv (fmul (Fin 2) (fsub (Fin hi) (Fin lo))) (fsub (Fin hi) (Fin lo))) (Fin 1) = Fin 1"
    by (simp add: c one)
qed

text \<open>The range of a field whose bounds are equal is a zero or NaN.\<close>

lemma degenerate_range:
  assumes "feq hi lo"
  shows "fsub hi lo = NaN \<or> is_zero (fsub hi lo)"
  using assms
  by (cases hi; cases lo) (auto simp: feq_def fsub_def fadd_def zero_of_def rnd_0)

lemma fdiv_degenerate:
  assumes "c = NaN \<or> is_zero c"
  shows "\<not> is_finite (fdiv a c)"
  using assms by (cases a; cases c) (auto simp: fdiv_def inf_of_def)

lemma fsub_not_finite:
  assumes "\<not> is_finite q"
  shows "\<not> is_finite (fsub q (Fin 1))"
  using assms by (cases q) (simp_all add: fsub_def fadd_def)

lemma rnd_pow2:
  assumes "- 1074 \<le> k" and "k \<le> 1023"
  shows "rnd (pow2 k) = Fin (pow2 k)"
proof -
  have "pow2 k < pow2 1024" using assms(2) by (intro pow2_strict_mono) simp
  then have "\<bar>of_int 1 * pow2 k\<bar> < pow2 1024" using pow2_pos [of k] by simp
  from repr_intro [OF _ assms(1) this] have "repr (pow2 k)" by simp
  then show ?thesis using pow2_pos [of k] by (intro rnd_repr) simp_all
qed

lemma rnd_minus: "r \<noteq> 0 \<Longrightarrow> rnd r = Fin v \<Longrightarrow> v \<noteq> 0 \<Longrightarrow> rnd (- r) = Fin (- v)"
  by (simp add: rnd_def Let_def sgn_if split: if_splits)

lemma rnd_overflow:
  assumes "pow2 1024 \<le> r"
  shows "rnd r = PInf"
proof -
  have pos: "0 < r" using assms pow2_pos [of 1024] by linarith
  have "pow2 1024 \<le> pow2 (ilog2 r + 1)"
    using ilog2_bounds [OF pos] assms by linarith
  then have "1024 \<le> ilog2 r + 1" by (simp add: pow2_le_iff)
  then have "1023 < max (ilog2 \<bar>r\<bar>) (- 1022) \<or> max (ilog2 \<bar>r\<bar>) (- 1022) = 1023" using pos by auto
  moreover
  { assume e: "max (ilog2 \<bar>r\<bar>) (- 1022) = 1023"
    have "pow2 1024 / pow2 (1023 - 52) \<le> \<bar>r\<bar> / pow2 (1023 - 52)"
      using assms pos pow2_pos [of "1023 - 52"] by (simp add: divide_le_cancel)
    moreover have "pow2 1024 / pow2 (1023 - 52) = of_int (2 ^ 53)"
      using pow2_53_scale [of 1023] pow2_pos [of "1023 - 52"] by (simp add: field_simps)
    ultimately have "of_int (2 ^ 53) \<le> \<bar>r\<bar> / pow2 (1023 - 52)" by simp
    from round_half_even_ge [OF this]
    have ge: "2 ^ 53 \<le> round_half_even (\<bar>r\<bar> / pow2 (1023 - 52))" .
    have "\<bar>r\<bar> < pow2 (1023 + 1)"
      using ilog2_bounds [OF pos] e pos by (simp add: max_def split: if_splits)
    then have "\<bar>r\<bar> / pow2 (1023 - 52) < pow2 1024 / pow2 (1023 - 52)"
      using pow2_pos [of "1023 - 52"] by (simp add: divide_strict_right_mono)
    also have "pow2 1024 / pow2 (1023 - 52) = of_int (2 ^ 53)" by fact
    finally have "\<bar>r\<bar> / pow2 (1023 - 52) \<le> of_int (2 ^ 53)" by simp
    from round_half_even_le [OF this] ge
    have "round_half_even (\<bar>r\<bar> / pow2 (1023 - 52)) = 2 ^ 53" by simp }
  ultimately show ?thesis using pos by (auto simp: rnd_nonzero_unfold)
qed

lemma rnd_near:
  assumes "pow2 e \<le> r" and "r < pow2 (e + 1)" and "- 1022 \<le> e" and "e \<le> 1023"
    and "0 < n" and "n < 2 ^ 53" and "\<bar>r - of_int n * pow2 (e - 52)\<bar> < pow2 (e - 53)"
  shows "rnd r = Fin (of_int n * pow2 (e - 52))"
proof -
  have pos: "0 < r" using assms(1) pow2_pos [of e] by linarith
  have il: "ilog2 r = e" using pos assms(1,2) by (rule ilog2_unique)
  have ne: "r \<noteq> 0" using pos by simp
  have m: "max (ilog2 \<bar>r\<bar>) (- 1022) = e" using il pos assms(3) by simp
  define q where "q = pow2 (e - 52)"
  have qpos: "0 < q" by (simp add: q_def pow2_pos)
  have half: "pow2 (e - 53) = q / 2"
  proof -
    have "pow2 (e - 52) = pow2 (1 + (e - 53))" by (rule arg_cong [of _ _ pow2]) simp
    also have "\<dots> = pow2 1 * pow2 (e - 53)" by (rule pow2_add)
    finally show ?thesis by (simp add: q_def pow2_1)
  qed
  have "\<bar>r / q - of_int n\<bar> = \<bar>r - of_int n * q\<bar> / q"
    using qpos by (simp add: field_simps abs_divide)
  also have "\<dots> < (q / 2) / q"
    using assms(7) qpos unfolding half q_def [symmetric] by (intro divide_strict_right_mono)
  also have "\<dots> = 1 / 2" using qpos by simp
  finally have "\<bar>r / q - of_int n\<bar> < 1 / 2" .
  then have "round_half_even (r / q) = n" by (rule round_half_even_near)
  then have n: "round_half_even (\<bar>r\<bar> / pow2 (e - 52)) = n" using pos by (simp add: q_def)
  have "rnd r = (if 1023 < e \<or> (e = 1023 \<and> n = 2 ^ 53) then (if 0 < r then PInf else NInf)
      else if n = 0 then (if 0 < r then Fin 0 else NZero)
      else Fin (sgn r * of_int n * pow2 (e - 52)))"
    by (simp only: rnd_nonzero_unfold [OF ne] m n)
  then show ?thesis using pos assms(4,5,6) by simp
qed

section \<open>ContinuousField: entries that are a negative zero\<close>

lemma nzero_sub: "lo \<noteq> 0 \<Longrightarrow> fsub NZero (Fin lo) = fsub (Fin 0) (Fin lo)"
  by (simp add: fsub_def fadd_def)

lemma nzero_chain:
  assumes "0 < c"
  shows "fsub NZero (Fin 0) = NZero" and "fdiv NZero (Fin c) = NZero"
    and "fmul NZero (Fin c) = NZero" and "fadd NZero (Fin 0) = Fin 0"
    and "fmul (Fin 2) NZero = NZero" and "fsub NZero (Fin 1) = Fin (- 1)"
    and "fadd (Fin (- 1)) (Fin 1) = Fin 0" and "fdiv (Fin 0) (Fin 2) = Fin 0"
    and "fmul (Fin 0) (Fin c) = Fin 0" and "fadd (Fin 0) (Fin 0) = Fin 0"
  using assms
  by (simp_all add: fsub_def fadd_def fdiv_def fmul_def zero_of_def rnd_0 rnd_small_ints)

lemma bound_nonneg:
  assumes "pow2 (- 1021) \<le> hi - lo"
  shows "0 \<le> pow2 (- 48) * (hi - lo) + pow2 (- 52) * \<bar>w\<bar>"
proof -
  have "0 \<le> hi - lo" using assms pow2_pos [of "- 1021"] by linarith
  then show ?thesis
    using pow2_pos [of "- 48"] pow2_pos [of "- 52"]
    by (intro add_nonneg_nonneg mult_nonneg_nonneg) simp_all
qed

lemma zero_one_roundtrip_entry:
  assumes "\<bar>lo\<bar> \<le> pow2 1020" and "\<bar>hi\<bar> \<le> pow2 1020" and "pow2 (- 1021) \<le> hi - lo"
    and "is_finite v" and "lo \<le> to_rat v" and "to_rat v \<le> hi"
  shows "is_finite (fadd (fmul (fdiv (fsub v (Fin lo)) (fsub (Fin hi) (Fin lo)))
                              (fsub (Fin hi) (Fin lo))) (Fin lo))
       \<and> \<bar>to_rat (fadd (fmul (fdiv (fsub v (Fin lo)) (fsub (Fin hi) (Fin lo)))
                              (fsub (Fin hi) (Fin lo))) (Fin lo)) - to_rat v\<bar>
           \<le> pow2 (- 48) * (hi - lo) + pow2 (- 52) * \<bar>to_rat v\<bar>"
proof (cases v)
  case (Fin w)
  with assms(5,6) have "lo \<le> w" "w \<le> hi" by simp_all
  from zero_one_roundtrip_elem [OF assms(1-3) this] show ?thesis by (simp add: Fin)
next
  case NZero
  show ?thesis
  proof (cases "lo = 0")
    case True
    from range_Fin [OF assms(1-3)] obtain c where c: "fsub (Fin hi) (Fin lo) = Fin c" and pos: "0 < c"
      by blast
    have "fadd (fmul (fdiv (fsub v (Fin lo)) (fsub (Fin hi) (Fin lo)))
                              (fsub (Fin hi) (Fin lo))) (Fin lo) = Fin 0"
      unfolding c unfolding NZero True by (simp only: nzero_chain [OF pos])
    then show ?thesis using bound_nonneg [OF assms(3), of 0] by (simp add: NZero)
  next
    case False
    have "lo \<le> 0" "0 \<le> hi" using assms(5,6) by (simp_all add: NZero)
    from zero_one_roundtrip_elem [OF assms(1-3) this] show ?thesis
      by (simp add: NZero nzero_sub [OF False])
  qed
qed (use assms(4) in simp_all)

lemma minusone_one_roundtrip_entry:
  assumes "\<bar>lo\<bar> \<le> pow2 1020" and "\<bar>hi\<bar> \<le> pow2 1020" and "pow2 (- 1021) \<le> hi - lo"
    and "is_finite v" and "lo \<le> to_rat v" and "to_rat v \<le> hi"
  shows "is_finite (fadd (fmul (fdiv (fadd (fsub (fdiv (fmul (Fin 2) (fsub v (Fin lo)))
             (fsub (Fin hi) (Fin lo))) (Fin 1)) (Fin 1)) (Fin 2)) (fsub (Fin hi) (Fin lo))) (Fin lo))
       \<and> \<bar>to_rat (fadd (fmul (fdiv (fadd (fsub (fdiv (fmul (Fin 2) (fsub v (Fin lo)))
             (fsub (Fin hi) (Fin lo))) (Fin 1)) (Fin 1)) (Fin 2)) (fsub (Fin hi) (Fin lo))) (Fin lo))
            - to_rat v\<bar>
           \<le> pow2 (- 48) * (hi - lo) + pow2 (- 52) * \<bar>to_rat v\<bar>"
proof (cases v)
  case (Fin w)
  with assms(5,6) have "lo \<le> w" "w \<le> hi" by simp_all
  from minusone_one_roundtrip_elem [OF assms(1-3) this] show ?thesis by (simp add: Fin)
next
  case NZero
  show ?thesis
  proof (cases "lo = 0")
    case True
    from range_Fin [OF assms(1-3)] obtain c where c: "fsub (Fin hi) (Fin lo) = Fin c" and pos: "0 < c"
      by blast
    have "fadd (fmul (fdiv (fadd (fsub (fdiv (fmul (Fin 2) (fsub v (Fin lo)))
             (fsub (Fin hi) (Fin lo))) (Fin 1)) (Fin 1)) (Fin 2)) (fsub (Fin hi) (Fin lo))) (Fin lo)
        = Fin 0"
      unfolding c unfolding NZero True by (simp only: nzero_chain [OF pos])
    then show ?thesis using bound_nonneg [OF assms(3), of 0] by (simp add: NZero)
  next
    case False
    have "lo \<le> 0" "0 \<le> hi" using assms(5,6) by (simp_all add: NZero)
    from minusone_one_roundtrip_elem [OF assms(1-3) this] show ?thesis
      by (simp add: NZero nzero_sub [OF False])
  qed
qed (use assms(4) in simp_all)

lemma zero_one_affine_entry:
  assumes "\<bar>lo\<bar> \<le> pow2 1020" and "\<bar>hi\<bar> \<le> pow2 1020" and "pow2 (- 1021) \<le> hi - lo"
    and "is_finite v" and "\<bar>to_rat v\<bar> \<le> pow2 1020"
    and "\<bar>(to_rat v - lo) / (hi - lo)\<bar> \<le> pow2 1020"
  shows "is_finite (fdiv (fsub v (Fin lo)) (fsub (Fin hi) (Fin lo)))
       \<and> \<bar>to_rat (fdiv (fsub v (Fin lo)) (fsub (Fin hi) (Fin lo)))
            - (to_rat v - lo) / (hi - lo)\<bar>
           \<le> pow2 (- 48) * (1 + \<bar>(to_rat v - lo) / (hi - lo)\<bar>)"
proof (cases v)
  case (Fin w)
  with assms(5,6) have "\<bar>w\<bar> \<le> pow2 1020" "\<bar>(w - lo) / (hi - lo)\<bar> \<le> pow2 1020" by simp_all
  from zero_one_affine_elem [OF assms(1-3) this] show ?thesis by (simp add: Fin)
next
  case NZero
  show ?thesis
  proof (cases "lo = 0")
    case True
    from range_Fin [OF assms(1-3)] obtain c where c: "fsub (Fin hi) (Fin lo) = Fin c" and pos: "0 < c"
      by blast
    have "fdiv (fsub v (Fin lo)) (fsub (Fin hi) (Fin lo)) = NZero"
      unfolding c unfolding NZero True by (simp only: nzero_chain [OF pos])
    then show ?thesis using pow2_pos [of "- 48"] by (simp add: NZero True less_imp_le)
  next
    case False
    have "\<bar>0::rat\<bar> \<le> pow2 1020" "\<bar>(0 - lo) / (hi - lo)\<bar> \<le> pow2 1020"
      using assms(5,6) by (simp_all add: NZero)
    from zero_one_affine_elem [OF assms(1-3) this] show ?thesis
      by (simp add: NZero nzero_sub [OF False])
  qed
qed (use assms(4) in simp_all)

lemma minusone_one_affine_entry:
  assumes "\<bar>lo\<bar> \<le> pow2 1020" and "\<bar>hi\<bar> \<le> pow2 1020" and "pow2 (- 1021) \<le> hi - lo"
    and "is_finite v" and "\<bar>to_rat v\<bar> \<le> pow2 1020"
    and "\<bar>(to_rat v - lo) / (hi - lo)\<bar> \<le> pow2 1020"
  shows "is_finite (fsub (fdiv (fmul (Fin 2) (fsub v (Fin lo))) (fsub (Fin hi) (Fin lo))) (Fin 1))
       \<and> \<bar>to_rat (fsub (fdiv (fmul (Fin 2) (fsub v (Fin lo))) (fsub (Fin hi) (Fin lo))) (Fin 1))
            - (2 * ((to_rat v - lo) / (hi - lo)) - 1)\<bar>
           \<le> pow2 (- 48) * (1 + \<bar>(to_rat v - lo) / (hi - lo)\<bar>)"
proof (cases v)
  case (Fin w)
  with assms(5,6) have "\<bar>w\<bar> \<le> pow2 1020" "\<bar>(w - lo) / (hi - lo)\<bar> \<le> pow2 1020" by simp_all
  from minusone_one_affine_elem [OF assms(1-3) this] show ?thesis by (simp add: Fin)
next
  case NZero
  show ?thesis
  proof (cases "lo = 0")
    case True
    from range_Fin [OF assms(1-3)] obtain c where c: "fsub (Fin hi) (Fin lo) = Fin c" and pos: "0 < c"
      by blast
    have "fsub (fdiv (fmul (Fin 2) (fsub v (Fin lo))) (fsub (Fin hi) (Fin lo))) (Fin 1) = Fin (- 1)"
      unfolding c unfolding NZero True by (simp only: nzero_chain [OF pos])
    then show ?thesis using pow2_pos [of "- 48"] by (simp add: NZero True less_imp_le)
  next
    case False
    have "\<bar>0::rat\<bar> \<le> pow2 1020" "\<bar>(0 - lo) / (hi - lo)\<bar> \<le> pow2 1020"
      using assms(5,6) by (simp_all add: NZero)
    from minusone_one_affine_elem [OF assms(1-3) this] show ?thesis
      by (simp add: NZero nzero_sub [OF False])
  qed
qed (use assms(4) in simp_all)

section \<open>ContinuousField: the round trip\<close>

lemma shape_last_Inr:
  assumes "shape x \<noteq> []"
  shows "shape_last x = Inr (last (shape x))"
  using assms by (cases "shape x") (simp_all add: shape_last_def)

lemma normalize_matching:
  assumes "shape x \<noteq> []" and "int (last (shape x)) = dim_x self"
  shows "ContinuousField_normalize self x =
     (case norm_option self of
        Some ZERO_ONE \<Rightarrow>
          Inr (map_nd (\<lambda>v. fdiv (fsub v (min_x self)) (fsub (max_x self) (min_x self))) x)
      | Some MINUSONE_ONE \<Rightarrow>
          Inr (map_nd (\<lambda>v. fsub (fdiv (fmul (Fin 2) (fsub v (min_x self)))
                                        (fsub (max_x self) (min_x self))) (Fin 1)) x)
      | None \<Rightarrow> Inl (Exception ''Not valid normalization option!''))"
  using assms by (simp add: ContinuousField_normalize_def shape_last_Inr)

lemma denormalize_matching:
  assumes "shape x \<noteq> []" and "int (last (shape x)) = dim_x self"
  shows "ContinuousField_denormalize self x =
     (case norm_option self of
        Some ZERO_ONE \<Rightarrow>
          Inr (map_nd (\<lambda>v. fadd (fmul v (fsub (max_x self) (min_x self))) (min_x self)) x)
      | Some MINUSONE_ONE \<Rightarrow>
          Inr (map_nd (\<lambda>v. fadd (fmul (fdiv (fadd v (Fin 1)) (Fin 2))
                                        (fsub (max_x self) (min_x self))) (min_x self)) x)
      | None \<Rightarrow> Inl (Exception ''Not valid normalization option!''))"
  using assms by (simp add: ContinuousField_denormalize_def shape_last_Inr)

lemma shape_map_nd: "shape (map_nd g x) = shape x"
  by (simp add: map_nd_def)

lemma data_map_nd: "data (map_nd g x) = map g (data x)"
  by (simp add: map_nd_def)

text \<open>
  Claim C1, as amended. ContinuousField round trip on \<open>float64\<close> arrays: let the
  bounds be finite floats of magnitude at most \<open>2^1020\<close> with
  \<open>max_x - min_x \<ge> 2^-1021\<close>, the input have a trailing dimension equal to \<open>dim_x\<close>
  and finite entries in \<open>[min_x, max_x]\<close>, and the mode be \<open>ZERO_ONE\<close> or
  \<open>MINUSONE_ONE\<close>. Then \<open>normalize\<close> returns, \<open>denormalize\<close> of its result returns
  an array of the input's shape, and every entry of it is finite and differs from the input
  entry \<open>x\<close> by at most \<open>2^-48 * (max_x - min_x) + 2^-52 * |x|\<close>.
\<close>

theorem ContinuousField_roundtrip:
  assumes "min_x self = Fin lo" and "max_x self = Fin hi"
    and "\<bar>lo\<bar> \<le> pow2 1020" and "\<bar>hi\<bar> \<le> pow2 1020" and "pow2 (- 1021) \<le> hi - lo"
    and "shape x \<noteq> []" and "int (last (shape x)) = dim_x self"
    and "norm_option self = Some m"
    and "\<forall>v\<in>set (data x). is_finite v \<and> lo \<le> to_rat v \<and> to_rat v \<le> hi"
  shows "\<exists>y z. ContinuousField_normalize self x = Inr y
           \<and> ContinuousField_denormalize self y = Inr z
           \<and> shape z = shape x \<and> length (data z) = length (data x)
           \<and> (\<forall>i<length (data x). is_finite (data z ! i)
                \<and> \<bar>to_rat (data z ! i) - to_rat (data x ! i)\<bar>
                    \<le> pow2 (- 48) * (hi - lo) + pow2 (- 52) * \<bar>to_rat (data x ! i)\<bar>)"
proof (cases m)
  case ZERO_ONE
  define g where "g = (\<lambda>v. fdiv (fsub v (Fin lo)) (fsub (Fin hi) (Fin lo)))"
  define h where "h = (\<lambda>v. fadd (fmul v (fsub (Fin hi) (Fin lo))) (Fin lo))"
  have n: "ContinuousField_normalize self x = Inr (map_nd g x)"
    using assms(6-8) ZERO_ONE by (simp add: normalize_matching assms(1,2) g_def)
  have d: "ContinuousField_denormalize self (map_nd g x) = Inr (map_nd h (map_nd g x))"
    using assms(6-8) ZERO_ONE by (simp add: denormalize_matching shape_map_nd assms(1,2) h_def)
  have e: "is_finite (h (g (data x ! i)))
      \<and> \<bar>to_rat (h (g (data x ! i))) - to_rat (data x ! i)\<bar>
          \<le> pow2 (- 48) * (hi - lo) + pow2 (- 52) * \<bar>to_rat (data x ! i)\<bar>"
    if "i < length (data x)" for i
  proof -
    from that have "data x ! i \<in> set (data x)" by (rule nth_mem)
    with assms(9) have "is_finite (data x ! i)" "lo \<le> to_rat (data x ! i)" "to_rat (data x ! i) \<le> hi"
      by blast+
    from zero_one_roundtrip_entry [OF assms(3-5) this] show ?thesis
      by (simp only: g_def h_def)
  qed
  show ?thesis
    apply (rule exI [of _ "map_nd g x"])
    apply (rule exI [of _ "map_nd h (map_nd g x)"])
    apply (simp add: n d shape_map_nd data_map_nd e)
    done
next
  case MINUSONE_ONE
  define g where "g = (\<lambda>v. fsub (fdiv (fmul (Fin 2) (fsub v (Fin lo))) (fsub (Fin hi) (Fin lo))) (Fin 1))"
  define h where "h = (\<lambda>v. fadd (fmul (fdiv (fadd v (Fin 1)) (Fin 2)) (fsub (Fin hi) (Fin lo))) (Fin lo))"
  have n: "ContinuousField_normalize self x = Inr (map_nd g x)"
    using assms(6-8) MINUSONE_ONE by (simp add: normalize_matching assms(1,2) g_def)
  have d: "ContinuousField_denormalize self (map_nd g x) = Inr (map_nd h (map_nd g x))"
    using assms(6-8) MINUSONE_ONE
    by (simp add: denormalize_matching shape_map_nd assms(1,2) h_def)
  have e: "is_finite (h (g (data x ! i)))
      \<and> \<bar>to_rat (h (g (data x ! i))) - to_rat (data x ! i)\<bar>
          \<le> pow2 (- 48) * (hi - lo) + pow2 (- 52) * \<bar>to_rat (data x ! i)\<bar>"
    if "i < length (data x)" for i
  proof -
    from that have "data x ! i \<in> set (data x)" by (rule nth_mem)
    with assms(9) have "is_finite (data x ! i)" "lo \<le> to_rat (data x ! i)" "to_rat (data x ! i) \<le> hi"
      by blast+
    from minusone_one_roundtrip_entry [OF assms(3-5) this] show ?thesis
      by (simp only: g_def h_def)
  qed
  show ?thesis
    apply (rule exI [of _ "map_nd g x"])
    apply (rule exI [of _ "map_nd h (map_nd g x)"])
    apply (simp add: n d shape_map_nd data_map_nd e)
    done
qed

lemma window_examples:
  "\<bar>0::rat\<bar> \<le> pow2 1020" "\<bar>10::rat\<bar> \<le> pow2 1020" "pow2 (- 1021) \<le> 10 - 0"
proof -
  have "pow2 4 \<le> pow2 1020" by (rule pow2_mono) simp
  then have a: "16 \<le> pow2 1020" by (simp add: pow2_def)
  have "pow2 (- 1021) \<le> pow2 0" by (rule pow2_mono) simp
  then have b: "pow2 (- 1021) \<le> 1" by (simp add: pow2_0)
  show "\<bar>0::rat\<bar> \<le> pow2 1020" "\<bar>10::rat\<bar> \<le> pow2 1020" "pow2 (- 1021) \<le> 10 - 0"
    using a b by simp_all
qed

theorem ContinuousField_roundtrip_witness:
  "\<exists>y z. ContinuousField_normalize
          \<lparr>name = ''pkt'', norm_option = Some MINUSONE_ONE, min_x = Fin 0, max_x = Fin 10, dim_x = 2\<rparr>
          \<lparr>shape = [2, 2], data = [Fin 0, Fin 10, Fin 4, NZero]\<rparr> = Inr y
     \<and> ContinuousField_denormalize
          \<lparr>name = ''pkt'', norm_option = Some MINUSONE_ONE, min_x = Fin 0, max_x = Fin 10, dim_x = 2\<rparr> y
        = Inr z
     \<and> shape z = [2, 2] \<and> length (data z) = 4
     \<and> (\<forall>i<4. is_finite (data z ! i)
          \<and> \<bar>to_rat (data z ! i) - to_rat ([Fin 0, Fin 10, Fin 4, NZero] ! i)\<bar>
              \<le> pow2 (- 48) * (10 - 0) + pow2 (- 52) * \<bar>to_rat ([Fin 0, Fin 10, Fin 4, NZero] ! i)\<bar>)"
  using ContinuousField_roundtrip
    [of "\<lparr>name = ''pkt'', norm_option = Some MINUSONE_ONE, min_x = Fin 0, max_x = Fin 10, dim_x = 2\<rparr>"
        0 10 "\<lparr>shape = [2, 2], data = [Fin 0, Fin 10, Fin 4, NZero]\<rparr>" MINUSONE_ONE]
    window_examples
  by (simp add: numeral_eq_Suc)

lemma rnd_half: "rnd (1 / 2) = Fin (1 / 2)"
  using rnd_pow2 [of "- 1"] by (simp add: pow2_def)

lemma absorb_example:
  "fsub (Fin (1 / 1073741824)) (Fin (- 1073741824)) = Fin 1073741824"
proof -
  have "fsub (Fin (1 / 1073741824)) (Fin (- 1073741824)) = rnd (1 / 1073741824 - (- 1073741824))"
    by (rule fsub_Fin) simp
  also have "rnd (1 / 1073741824 - (- 1073741824)) = Fin (of_int 4503599627370496 * pow2 (30 - 52))"
    by (rule rnd_near) (simp_all add: pow2_def)
  also have "\<dots> = Fin 1073741824" by (simp add: pow2_def)
  finally show ?thesis .
qed

lemma range_example:
  "fsub (Fin 1073741824) (Fin (- 1073741824)) = Fin 2147483648"
  using rnd_int [of 2147483648] by (simp add: fsub_Fin)

lemma chain_example:
  "fdiv (Fin 1073741824) (Fin 2147483648) = Fin (1 / 2)"
  "fmul (Fin (1 / 2)) (Fin 2147483648) = Fin 1073741824"
  "fadd (Fin 1073741824) (Fin (- 1073741824)) = Fin 0"
  using rnd_int [of 1073741824] by (simp_all add: fdiv_Fin fmul_Fin fadd_Fin rnd_half rnd_0)

lemma overflow_example:
  "fsub (Fin (pow2 1023)) (Fin (- pow2 1023)) = PInf"
  "fsub (Fin 0) (Fin (- pow2 1023)) = Fin (pow2 1023)"
  "fdiv (Fin (pow2 1023)) PInf = Fin 0"
  "fmul (Fin 0) PInf = NaN"
  "fadd NaN v = NaN"
  "fdiv PInf PInf = NaN"
proof -
  have p: "0 < pow2 1023" by (rule pow2_pos)
  have "pow2 (1023 + 1) = 2 * pow2 1023" by (rule pow2_Suc)
  then have "pow2 1023 - (- pow2 1023) = pow2 1024" by simp
  then have "rnd (pow2 1023 - (- pow2 1023)) = PInf" by (simp only: rnd_overflow order_refl)
  then show "fsub (Fin (pow2 1023)) (Fin (- pow2 1023)) = PInf" using p by (simp add: fsub_Fin)
  have "rnd (pow2 1023) = Fin (pow2 1023)" by (rule rnd_pow2) simp_all
  then show "fsub (Fin 0) (Fin (- pow2 1023)) = Fin (pow2 1023)" using p by (simp add: fsub_Fin)
  show "fdiv (Fin (pow2 1023)) PInf = Fin 0" using p by (simp add: fdiv_def zero_of_def)
  show "fmul (Fin 0) PInf = NaN" by (simp add: fmul_def)
  show "fadd NaN v = NaN" by (simp add: fadd_def)
  show "fdiv PInf PInf = NaN" by (simp add: fdiv_def)
qed

text \<open>
  The claim C1 as stated asks for the input again, exactly or within a relative
  tolerance. With bounds \<open>-2^30\<close> and \<open>2^30\<close> the entry \<open>2^-30\<close> is absorbed by the
  first subtraction and comes back as \<open>0.0\<close>; with bounds \<open>-2^1023\<close> and \<open>2^1023\<close> the
  range overflows to \<open>inf\<close> and the entry \<open>0.0\<close> comes back as NaN.
\<close>

theorem ContinuousField_roundtrip_counterexample:
  "ContinuousField_normalize
      \<lparr>name = ''ts'', norm_option = Some ZERO_ONE, min_x = Fin (- 1073741824),
         max_x = Fin 1073741824, dim_x = 1\<rparr>
      \<lparr>shape = [1], data = [Fin (1 / 1073741824)]\<rparr>
    = Inr \<lparr>shape = [1], data = [Fin (1 / 2)]\<rparr>
   \<and> ContinuousField_denormalize
      \<lparr>name = ''ts'', norm_option = Some ZERO_ONE, min_x = Fin (- 1073741824),
         max_x = Fin 1073741824, dim_x = 1\<rparr>
      \<lparr>shape = [1], data = [Fin (1 / 2)]\<rparr>
    = Inr \<lparr>shape = [1], data = [Fin 0]\<rparr>
   \<and> ContinuousField_normalize
      \<lparr>name = ''ts'', norm_option = Some ZERO_ONE, min_x = Fin (- pow2 1023),
         max_x = Fin (pow2 1023), dim_x = 1\<rparr>
      \<lparr>shape = [1], data = [Fin 0]\<rparr>
    = Inr \<lparr>shape = [1], data = [Fin 0]\<rparr>
   \<and> ContinuousField_denormalize
      \<lparr>name = ''ts'', norm_option = Some ZERO_ONE, min_x = Fin (- pow2 1023),
         max_x = Fin (pow2 1023), dim_x = 1\<rparr>
      \<lparr>shape = [1], data = [Fin 0]\<rparr>
    = Inr \<lparr>shape = [1], data = [NaN]\<rparr>"
  by (simp add: ContinuousField_normalize_def ContinuousField_denormalize_def
      shape_last_def map_nd_def absorb_example range_example chain_example overflow_example)

section \<open>ContinuousField: dimension check, boundary values and degenerate range\<close>

text \<open>
  Claim C6. ContinuousField dimension validation: for an input that has a trailing
  dimension, \<open>normalize\<close> and \<open>denormalize\<close> both raise the dimension error
  (\<open>ValueError\<close>) when it differs from \<open>dim_x\<close>; when it matches, neither raises it,
  and with one of the two modes both return an array of the input's shape.
\<close>

theorem ContinuousField_dimension_check:
  assumes "shape x \<noteq> []"
  shows "(int (last (shape x)) \<noteq> dim_x self \<longrightarrow>
            ContinuousField_normalize self x = Inl ValueError
          \<and> ContinuousField_denormalize self x = Inl ValueError)
       \<and> (int (last (shape x)) = dim_x self \<longrightarrow>
            ContinuousField_normalize self x \<noteq> Inl ValueError
          \<and> ContinuousField_denormalize self x \<noteq> Inl ValueError
          \<and> (norm_option self \<noteq> None \<longrightarrow>
               (\<exists>y. ContinuousField_normalize self x = Inr y \<and> shape y = shape x)
             \<and> (\<exists>y. ContinuousField_denormalize self x = Inr y \<and> shape y = shape x)))"
proof (intro conjI impI)
  assume "int (last (shape x)) \<noteq> dim_x self"
  then show "ContinuousField_normalize self x = Inl ValueError"
    using assms by (simp add: ContinuousField_normalize_def shape_last_Inr)
next
  assume "int (last (shape x)) \<noteq> dim_x self"
  then show "ContinuousField_denormalize self x = Inl ValueError"
    using assms by (simp add: ContinuousField_denormalize_def shape_last_Inr)
next
  assume "int (last (shape x)) = dim_x self"
  then show "ContinuousField_normalize self x \<noteq> Inl ValueError"
    using assms by (simp add: normalize_matching split: option.split Normalization.split)
next
  assume "int (last (shape x)) = dim_x self"
  then show "ContinuousField_denormalize self x \<noteq> Inl ValueError"
    using assms by (simp add: denormalize_matching split: option.split Normalization.split)
next
  assume "int (last (shape x)) = dim_x self" and "norm_option self \<noteq> None"
  then show "\<exists>y. ContinuousField_normalize self x = Inr y \<and> shape y = shape x"
    using assms
    by (auto simp: normalize_matching shape_map_nd split: option.split Normalization.split)
next
  assume "int (last (shape x)) = dim_x self" and "norm_option self \<noteq> None"
  then show "\<exists>y. ContinuousField_denormalize self x = Inr y \<and> shape y = shape x"
    using assms
    by (auto simp: denormalize_matching shape_map_nd split: option.split Normalization.split)
qed

theorem ContinuousField_dimension_check_witness:
  "ContinuousField_normalize
      \<lparr>name = ''pair'', norm_option = Some ZERO_ONE, min_x = Fin 0, max_x = Fin 10, dim_x = 2\<rparr>
      \<lparr>shape = [1], data = [Fin 1]\<rparr> = Inl ValueError
   \<and> ContinuousField_denormalize
      \<lparr>name = ''pair'', norm_option = Some ZERO_ONE, min_x = Fin 0, max_x = Fin 10, dim_x = 2\<rparr>
      \<lparr>shape = [1], data = [Fin 1]\<rparr> = Inl ValueError
   \<and> (\<exists>y. ContinuousField_normalize
      \<lparr>name = ''pair'', norm_option = Some ZERO_ONE, min_x = Fin 0, max_x = Fin 10, dim_x = 2\<rparr>
      \<lparr>shape = [2], data = [Fin 1, Fin 5]\<rparr> = Inr y \<and> shape y = [2])
   \<and> (\<exists>y. ContinuousField_denormalize
      \<lparr>name = ''pair'', norm_option = Some ZERO_ONE, min_x = Fin 0, max_x = Fin 10, dim_x = 2\<rparr>
      \<lparr>shape = [2], data = [Fin 1, Fin 5]\<rparr> = Inr y \<and> shape y = [2])"
  using ContinuousField_dimension_check
      [of "\<lparr>shape = [1], data = [Fin 1]\<rparr>"
          "\<lparr>name = ''pair'', norm_option = Some ZERO_ONE, min_x = Fin 0, max_x = Fin 10, dim_x = 2\<rparr>"]
    ContinuousField_dimension_check
      [of "\<lparr>shape = [2], data = [Fin 1, Fin 5]\<rparr>"
          "\<lparr>name = ''pair'', norm_option = Some ZERO_ONE, min_x = Fin 0, max_x = Fin 10, dim_x = 2\<rparr>"]
  by simp

text \<open>
  Claim C7, as amended. ContinuousField boundary scaling on \<open>float64\<close> arrays: let the
  bounds be finite floats of magnitude at most \<open>2^1020\<close> with
  \<open>max_x - min_x \<ge> 2^-1021\<close>. Then \<open>normalize\<close> maps an entry equal to \<open>min_x\<close> to
  exactly \<open>0.0\<close> (\<open>ZERO_ONE\<close>) or \<open>-1.0\<close> (\<open>MINUSONE_ONE\<close>) and an entry equal to
  \<open>max_x\<close> to exactly \<open>1.0\<close>. Every finite entry \<open>x\<close> of magnitude at most
  \<open>2^1020\<close>, inside or outside \<open>[min_x, max_x]\<close>, with
  \<open>t = (x - min_x) / (max_x - min_x)\<close> of magnitude at most \<open>2^1020\<close>, is mapped to a
  finite value within \<open>2^-48 * (1 + |t|)\<close> of \<open>t\<close> (\<open>ZERO_ONE\<close>) or of \<open>2 * t - 1\<close>
  (\<open>MINUSONE_ONE\<close>): the affine map is followed up to rounding and nothing is clamped.
\<close>

theorem ContinuousField_boundary_scaling:
  assumes "min_x self = Fin lo" and "max_x self = Fin hi"
    and "\<bar>lo\<bar> \<le> pow2 1020" and "\<bar>hi\<bar> \<le> pow2 1020" and "pow2 (- 1021) \<le> hi - lo"
    and "shape x \<noteq> []" and "int (last (shape x)) = dim_x self"
    and "norm_option self = Some m"
  shows "\<exists>y. ContinuousField_normalize self x = Inr y
           \<and> shape y = shape x \<and> length (data y) = length (data x)
           \<and> (\<forall>i<length (data x). data x ! i = Fin lo \<longrightarrow>
                 data y ! i = Fin (case m of ZERO_ONE \<Rightarrow> 0 | MINUSONE_ONE \<Rightarrow> - 1))
           \<and> (\<forall>i<length (data x). data x ! i = Fin hi \<longrightarrow> data y ! i = Fin 1)
           \<and> (\<forall>i<length (data x).
                 is_finite (data x ! i) \<and> \<bar>to_rat (data x ! i)\<bar> \<le> pow2 1020
                 \<and> \<bar>(to_rat (data x ! i) - lo) / (hi - lo)\<bar> \<le> pow2 1020 \<longrightarrow>
                 is_finite (data y ! i)
                 \<and> \<bar>to_rat (data y ! i)
                      - (case m of
                           ZERO_ONE \<Rightarrow> (to_rat (data x ! i) - lo) / (hi - lo)
                         | MINUSONE_ONE \<Rightarrow> 2 * ((to_rat (data x ! i) - lo) / (hi - lo)) - 1)\<bar>
                     \<le> pow2 (- 48) * (1 + \<bar>(to_rat (data x ! i) - lo) / (hi - lo)\<bar>))"
proof (cases m)
  case ZERO_ONE
  define g where "g = (\<lambda>v. fdiv (fsub v (Fin lo)) (fsub (Fin hi) (Fin lo)))"
  have n: "ContinuousField_normalize self x = Inr (map_nd g x)"
    using assms(6-8) ZERO_ONE by (simp add: normalize_matching assms(1,2) g_def)
  have b: "g (Fin lo) = Fin 0" "g (Fin hi) = Fin 1"
    unfolding g_def by (rule zero_one_boundary_elem [OF assms(3-5)])+
  have a: "is_finite (g v)
      \<and> \<bar>to_rat (g v) - (to_rat v - lo) / (hi - lo)\<bar>
          \<le> pow2 (- 48) * (1 + \<bar>(to_rat v - lo) / (hi - lo)\<bar>)"
    if "is_finite v" "\<bar>to_rat v\<bar> \<le> pow2 1020" "\<bar>(to_rat v - lo) / (hi - lo)\<bar> \<le> pow2 1020" for v
    unfolding g_def by (rule zero_one_affine_entry [OF assms(3-5) that])
  have p1: "\<forall>i<length (data x). data x ! i = Fin lo \<longrightarrow> data (map_nd g x) ! i = Fin 0"
    and p2: "\<forall>i<length (data x). data x ! i = Fin hi \<longrightarrow> data (map_nd g x) ! i = Fin 1"
    by (simp_all add: data_map_nd b)
  have p3: "\<forall>i<length (data x).
      is_finite (data x ! i) \<and> \<bar>to_rat (data x ! i)\<bar> \<le> pow2 1020
      \<and> \<bar>(to_rat (data x ! i) - lo) / (hi - lo)\<bar> \<le> pow2 1020 \<longrightarrow>
      is_finite (data (map_nd g x) ! i)
      \<and> \<bar>to_rat (data (map_nd g x) ! i) - (to_rat (data x ! i) - lo) / (hi - lo)\<bar>
          \<le> pow2 (- 48) * (1 + \<bar>(to_rat (data x ! i) - lo) / (hi - lo)\<bar>)"
  proof (intro allI impI)
    fix i
    assume i: "i < length (data x)"
      and h: "is_finite (data x ! i) \<and> \<bar>to_rat (data x ! i)\<bar> \<le> pow2 1020
        \<and> \<bar>(to_rat (data x ! i) - lo) / (hi - lo)\<bar> \<le> pow2 1020"
    from i have eq: "data (map_nd g x) ! i = g (data x ! i)" by (simp add: data_map_nd)
    from h have "is_finite (data x ! i)" "\<bar>to_rat (data x ! i)\<bar> \<le> pow2 1020"
      "\<bar>(to_rat (data x ! i) - lo) / (hi - lo)\<bar> \<le> pow2 1020" by blast+
    from a [OF this] show "is_finite (data (map_nd g x) ! i)
      \<and> \<bar>to_rat (data (map_nd g x) ! i) - (to_rat (data x ! i) - lo) / (hi - lo)\<bar>
          \<le> pow2 (- 48) * (1 + \<bar>(to_rat (data x ! i) - lo) / (hi - lo)\<bar>)"
      unfolding eq .
  qed
  show ?thesis
    unfolding ZERO_ONE Normalization.case
    apply (rule exI [of _ "map_nd g x"])
    apply (intro conjI)
         apply (rule n)
        apply (rule shape_map_nd)
       apply (simp add: data_map_nd)
      apply (rule p1)
     apply (rule p2)
    apply (rule p3)
    done
next
  case MINUSONE_ONE
  define g where "g = (\<lambda>v. fsub (fdiv (fmul (Fin 2) (fsub v (Fin lo))) (fsub (Fin hi) (Fin lo))) (Fin 1))"
  have n: "ContinuousField_normalize self x = Inr (map_nd g x)"
    using assms(6-8) MINUSONE_ONE by (simp add: normalize_matching assms(1,2) g_def)
  have b: "g (Fin lo) = Fin (- 1)" "g (Fin hi) = Fin 1"
    unfolding g_def by (rule minusone_one_boundary_elem [OF assms(3-5)])+
  have a: "is_finite (g v)
      \<and> \<bar>to_rat (g v) - (2 * ((to_rat v - lo) / (hi - lo)) - 1)\<bar>
          \<le> pow2 (- 48) * (1 + \<bar>(to_rat v - lo) / (hi - lo)\<bar>)"
    if "is_finite v" "\<bar>to_rat v\<bar> \<le> pow2 1020" "\<bar>(to_rat v - lo) / (hi - lo)\<bar> \<le> pow2 1020" for v
    unfolding g_def by (rule minusone_one_affine_entry [OF assms(3-5) that])
  have p1: "\<forall>i<length (data x). data x ! i = Fin lo \<longrightarrow> data (map_nd g x) ! i = Fin (- 1)"
    and p2: "\<forall>i<length (data x). data x ! i = Fin hi \<longrightarrow> data (map_nd g x) ! i = Fin 1"
    by (simp_all add: data_map_nd b)
  have p3: "\<forall>i<length (data x).
      is_finite (data x ! i) \<and> \<bar>to_rat (data x ! i)\<bar> \<le> pow2 1020
      \<and> \<bar>(to_rat (data x ! i) - lo) / (hi - lo)\<bar> \<le> pow2 1020 \<longrightarrow>
      is_finite (data (map_nd g x) ! i)
      \<and> \<bar>to_rat (data (map_nd g x) ! i) - (2 * ((to_rat (data x ! i) - lo) / (hi - lo)) - 1)\<bar>
          \<le> pow2 (- 48) * (1 + \<bar>(to_rat (data x ! i) - lo) / (hi - lo)\<bar>)"
  proof (intro allI impI)
    fix i
    assume i: "i < length (data x)"
      and h: "is_finite (data x ! i) \<and> \<bar>to_rat (data x ! i)\<bar> \<le> pow2 1020
        \<and> \<bar>(to_rat (data x ! i) - lo) / (hi - lo)\<bar> \<le> pow2 1020"
    from i have eq: "data (map_nd g x) ! i = g (data x ! i)" by (simp add: data_map_nd)
    from h have "is_finite (data x ! i)" "\<bar>to_rat (data x ! i)\<bar> \<le> pow2 1020"
      "\<bar>(to_rat (data x ! i) - lo) / (hi - lo)\<bar> \<le> pow2 1020" by blast+
    from a [OF this] show "is_finite (data (map_nd g x) ! i)
      \<and> \<bar>to_rat (data (map_nd g x) ! i) - (2 * ((to_rat (data x ! i) - lo) / (hi - lo)) - 1)\<bar>
          \<le> pow2 (- 48) * (1 + \<bar>(to_rat (data x ! i) - lo) / (hi - lo)\<bar>)"
      unfolding eq .
  qed
  show ?thesis
    unfolding MINUSONE_ONE Normalization.case
    apply (rule exI [of _ "map_nd g x"])
    apply (intro conjI)
         apply (rule n)
        apply (rule shape_map_nd)
       apply (simp add: data_map_nd)
      apply (rule p1)
     apply (rule p2)
    apply (rule p3)
    done
qed

theorem ContinuousField_boundary_scaling_witness:
  "\<exists>y. ContinuousField_normalize
          \<lparr>name = ''len'', norm_option = Some MINUSONE_ONE, min_x = Fin 0, max_x = Fin 10, dim_x = 1\<rparr>
          \<lparr>shape = [4, 1], data = [Fin 0, Fin 10, Fin 20, Fin (- 5)]\<rparr> = Inr y
     \<and> shape y = [4, 1] \<and> length (data y) = 4
     \<and> data y ! 0 = Fin (- 1) \<and> data y ! 1 = Fin 1
     \<and> is_finite (data y ! 2) \<and> \<bar>to_rat (data y ! 2) - 3\<bar> \<le> pow2 (- 48) * 3
     \<and> is_finite (data y ! 3) \<and> \<bar>to_rat (data y ! 3) - (- 2)\<bar> \<le> pow2 (- 48) * (3 / 2)"
proof -
  have big: "32 \<le> pow2 1020"
  proof -
    have "pow2 5 \<le> pow2 1020" by (rule pow2_mono) simp
    then show ?thesis by (simp add: pow2_def)
  qed
  have w: "\<bar>20::rat\<bar> \<le> pow2 1020" "\<bar>- 5::rat\<bar> \<le> pow2 1020"
    "\<bar>(20 - 0) / (10 - 0) :: rat\<bar> \<le> pow2 1020" "\<bar>(- 5 - 0) / (10 - 0) :: rat\<bar> \<le> pow2 1020"
    using big by simp_all
  from ContinuousField_boundary_scaling
      [of "\<lparr>name = ''len'', norm_option = Some MINUSONE_ONE, min_x = Fin 0, max_x = Fin 10, dim_x = 1\<rparr>"
          0 10 "\<lparr>shape = [4, 1], data = [Fin 0, Fin 10, Fin 20, Fin (- 5)]\<rparr>" MINUSONE_ONE]
    window_examples
  obtain y where y: "ContinuousField_normalize
          \<lparr>name = ''len'', norm_option = Some MINUSONE_ONE, min_x = Fin 0, max_x = Fin 10, dim_x = 1\<rparr>
          \<lparr>shape = [4, 1], data = [Fin 0, Fin 10, Fin 20, Fin (- 5)]\<rparr> = Inr y"
    and s: "shape y = [4, 1]" "length (data y) = 4"
    and lo: "\<forall>i<4. [Fin 0, Fin 10, Fin 20, Fin (- 5)] ! i = Fin 0 \<longrightarrow> data y ! i = Fin (- 1)"
    and hi: "\<forall>i<4. [Fin 0, Fin 10, Fin 20, Fin (- 5)] ! i = Fin 10 \<longrightarrow> data y ! i = Fin 1"
    and af: "\<forall>i<4. is_finite ([Fin 0, Fin 10, Fin 20, Fin (- 5)] ! i)
                 \<and> \<bar>to_rat ([Fin 0, Fin 10, Fin 20, Fin (- 5)] ! i)\<bar> \<le> pow2 1020
                 \<and> \<bar>(to_rat ([Fin 0, Fin 10, Fin 20, Fin (- 5)] ! i) - 0) / (10 - 0)\<bar> \<le> pow2 1020 \<longrightarrow>
                 is_finite (data y ! i)
                 \<and> \<bar>to_rat (data y ! i)
                      - (2 * ((to_rat ([Fin 0, Fin 10, Fin 20, Fin (- 5)] ! i) - 0) / (10 - 0)) - 1)\<bar>
                     \<le> pow2 (- 48) * (1 + \<bar>(to_rat ([Fin 0, Fin 10, Fin 20, Fin (- 5)] ! i) - 0) / (10 - 0)\<bar>)"
    by auto
  from lo [rule_format, of 0] hi [rule_format, of 1] af [rule_format, of 2] af [rule_format, of 3] w
  show ?thesis using y s by simp
qed

text \<open>
  The claim C7 as stated covers every field with \<open>max_x > min_x\<close>. With bounds
  \<open>-2^1023\<close> and \<open>2^1023\<close> the range overflows to \<open>inf\<close>, and \<open>normalize(max_x)\<close> is
  \<open>inf / inf\<close>, NaN and not \<open>1.0\<close>.
\<close>

theorem ContinuousField_boundary_scaling_counterexample:
  "ContinuousField_normalize
      \<lparr>name = ''ts'', norm_option = Some ZERO_ONE, min_x = Fin (- pow2 1023),
         max_x = Fin (pow2 1023), dim_x = 1\<rparr>
      \<lparr>shape = [1], data = [Fin (pow2 1023)]\<rparr>
    = Inr \<lparr>shape = [1], data = [NaN]\<rparr>"
  by (simp add: ContinuousField_normalize_def shape_last_def map_nd_def overflow_example)

text \<open>
  Claim C4, as amended. With \<open>max_x == min_x\<close> neither method raises on an input of
  matching dimension: \<open>normalize\<close> returns an array of the input's shape in which no entry
  is finite (each is NaN or an infinity), and \<open>denormalize\<close> returns an array of the
  input's shape.
\<close>

theorem ContinuousField_degenerate_range:
  assumes "feq (max_x self) (min_x self)"
    and "shape x \<noteq> []"
    and "int (last (shape x)) = dim_x self"
    and "norm_option self = Some m"
  shows "\<exists>y z. ContinuousField_normalize self x = Inr y
           \<and> shape y = shape x \<and> length (data y) = length (data x)
           \<and> (\<forall>i<length (data x). \<not> is_finite (data y ! i))
           \<and> ContinuousField_denormalize self x = Inr z
           \<and> shape z = shape x \<and> length (data z) = length (data x)"
proof -
  note r = degenerate_range [OF assms(1)]
  show ?thesis
  proof (cases m)
    case ZERO_ONE
    have n: "ContinuousField_normalize self x =
        Inr (map_nd (\<lambda>v. fdiv (fsub v (min_x self)) (fsub (max_x self) (min_x self))) x)"
      and d: "ContinuousField_denormalize self x =
        Inr (map_nd (\<lambda>v. fadd (fmul v (fsub (max_x self) (min_x self))) (min_x self)) x)"
      using assms ZERO_ONE by (simp_all add: normalize_matching denormalize_matching)
    show ?thesis
      unfolding n d by (simp add: shape_map_nd data_map_nd fdiv_degenerate [OF r])
  next
    case MINUSONE_ONE
    have n: "ContinuousField_normalize self x =
        Inr (map_nd (\<lambda>v. fsub (fdiv (fmul (Fin 2) (fsub v (min_x self)))
                                        (fsub (max_x self) (min_x self))) (Fin 1)) x)"
      and d: "ContinuousField_denormalize self x =
        Inr (map_nd (\<lambda>v. fadd (fmul (fdiv (fadd v (Fin 1)) (Fin 2))
                                        (fsub (max_x self) (min_x self))) (min_x self)) x)"
      using assms MINUSONE_ONE by (simp_all add: normalize_matching denormalize_matching)
    show ?thesis
      unfolding n d
      by (simp add: shape_map_nd data_map_nd fsub_not_finite [OF fdiv_degenerate [OF r]])
  qed
qed

theorem ContinuousField_degenerate_range_witness:
  "\<exists>y z. ContinuousField_normalize
          \<lparr>name = ''len'', norm_option = Some MINUSONE_ONE, min_x = Fin 3, max_x = Fin 3, dim_x = 1\<rparr>
          \<lparr>shape = [3, 1], data = [Fin 5, Fin 3, Fin 1]\<rparr> = Inr y
     \<and> shape y = [3, 1] \<and> length (data y) = 3
     \<and> (\<forall>i<3. \<not> is_finite (data y ! i))
     \<and> ContinuousField_denormalize
          \<lparr>name = ''len'', norm_option = Some MINUSONE_ONE, min_x = Fin 3, max_x = Fin 3, dim_x = 1\<rparr>
          \<lparr>shape = [3, 1], data = [Fin 5, Fin 3, Fin 1]\<rparr> = Inr z
     \<and> shape z = [3, 1] \<and> length (data z) = 3"
  using ContinuousField_degenerate_range
      [of "\<lparr>name = ''len'', norm_option = Some MINUSONE_ONE, min_x = Fin 3, max_x = Fin 3, dim_x = 1\<rparr>"
          "\<lparr>shape = [3, 1], data = [Fin 5, Fin 3, Fin 1]\<rparr>" MINUSONE_ONE]
  by (simp add: feq_def numeral_eq_Suc)

lemma degenerate_example:
  "fsub (Fin 5) (Fin 3) = Fin 2" "fsub (Fin 1) (Fin 3) = Fin (- 2)"
  "fdiv (Fin 2) (Fin 0) = PInf" "fdiv (Fin 0) (Fin 0) = NaN" "fdiv (Fin (- 2)) (Fin 0) = NInf"
  "fmul (Fin 5) (Fin 0) = Fin 0" "fmul (Fin 3) (Fin 0) = Fin 0" "fmul (Fin 1) (Fin 0) = Fin 0"
  "fadd (Fin 0) (Fin 3) = Fin 3"
  using rnd_int [of 2] rnd_int [of "- 2"] rnd_int [of 3]
  by (simp_all add: fsub_Fin fadd_Fin fmul_Fin_zero fdiv_def inf_of_def)

text \<open>
  The claim C4 as stated asks for an arithmetic error; at \<open>min_x = max_x = 3.0\<close> both
  methods return.
\<close>

theorem ContinuousField_degenerate_range_counterexample:
  "ContinuousField_normalize
      \<lparr>name = ''len'', norm_option = Some ZERO_ONE, min_x = Fin 3, max_x = Fin 3, dim_x = 1\<rparr>
      \<lparr>shape = [3, 1], data = [Fin 5, Fin 3, Fin 1]\<rparr>
    = Inr \<lparr>shape = [3, 1], data = [PInf, NaN, NInf]\<rparr>
   \<and> ContinuousField_denormalize
      \<lparr>name = ''len'', norm_option = Some ZERO_ONE, min_x = Fin 3, max_x = Fin 3, dim_x = 1\<rparr>
      \<lparr>shape = [3, 1], data = [Fin 5, Fin 3, Fin 1]\<rparr>
    = Inr \<lparr>shape = [3, 1], data = [Fin 3, Fin 3, Fin 3]\<rparr>"
  by (simp add: ContinuousField_normalize_def ContinuousField_denormalize_def
      shape_last_def map_nd_def fsub_self degenerate_example)

section \<open>Descriptors and DiscreteField.normalize\<close>

text \<open>
  Claim C8. \<open>BitField.getOutputType\<close> returns a list of \<open>num_bits\<close> descriptors (for
  \<open>num_bits \<ge> 0\<close>), every one discrete, of width 2 and without normalization.
\<close>

theorem BitField_getOutputType_descriptors:
  "BitField_getOutputType self
     = replicate (nat (num_bits self)) \<lparr>output_type = DISCRETE, dim = 2, normalization = None\<rparr>
   \<and> (0 \<le> num_bits self \<longrightarrow> int (length (BitField_getOutputType self)) = num_bits self)
   \<and> (\<forall>d\<in>set (BitField_getOutputType self).
         output_type d = DISCRETE \<and> dim d = 2 \<and> normalization d = None)"
  by (auto simp: BitField_getOutputType_def map_replicate_const)

theorem BitField_getOutputType_descriptors_witness:
  "BitField_getOutputType \<lparr>name = ''srcip'', num_bits = 4\<rparr>
     = [\<lparr>output_type = DISCRETE, dim = 2, normalization = None\<rparr>,
        \<lparr>output_type = DISCRETE, dim = 2, normalization = None\<rparr>,
        \<lparr>output_type = DISCRETE, dim = 2, normalization = None\<rparr>,
        \<lparr>output_type = DISCRETE, dim = 2, normalization = None\<rparr>]
   \<and> int (length (BitField_getOutputType \<lparr>name = ''srcip'', num_bits = 4\<rparr>)) = 4"
  using BitField_getOutputType_descriptors [of "\<lparr>name = ''srcip'', num_bits = 4\<rparr>"]
  by (simp add: numeral_eq_Suc)

lemma one_hot_unknown:
  assumes "x \<notin> set cs"
  shows "one_hot cs x = replicate (length cs) 0"
  using assms by (induction cs) (auto simp: one_hot_def)

text \<open>
  Claim C5. DiscreteField unknown-category policy: for a vocabulary of distinct labels and
  a label \<open>x\<close> that is not in it, \<open>normalize(x)\<close> returns (does not raise) the row of
  \<open>len(choices)\<close> zeros.
\<close>

theorem DiscreteField_unknown_category:
  assumes "distinct (choices self)" and "x \<notin> set (choices self)"
  shows "DiscreteField_normalize self (Single x)
           = Inr \<lparr>shape = [length (choices self)],
                  data = replicate (length (choices self)) 0\<rparr>"
  using assms
  by (simp add: DiscreteField_normalize_def get_dummies_def nd_first_def one_hot_unknown)

theorem DiscreteField_unknown_category_witness:
  "DiscreteField_normalize \<lparr>name = ''proto'', choices = [''a'', ''b'', ''c'']\<rparr> (Single ''z'')
     = Inr \<lparr>shape = [3], data = [0, 0, 0]\<rparr>"
  using DiscreteField_unknown_category
      [of "\<lparr>name = ''proto'', choices = [''a'', ''b'', ''c'']\<rparr>" "''z''"]
  by (simp add: numeral_eq_Suc)

section \<open>DiscreteField.denormalize: the first largest entry of each row\<close>

lemma argmax_from_first_max:
  assumes "bi < length pre" and "pre ! bi = best"
    and "\<forall>j<length pre. pre ! j \<le> best"
    and "\<forall>j<bi. pre ! j < best"
    and "i = length pre"
  shows "argmax_from best bi i vs < length (pre @ vs)
       \<and> (\<forall>j<length (pre @ vs). (pre @ vs) ! j \<le> (pre @ vs) ! argmax_from best bi i vs)
       \<and> (\<forall>j<argmax_from best bi i vs. (pre @ vs) ! j < (pre @ vs) ! argmax_from best bi i vs)"
  using assms
proof (induction vs arbitrary: pre best bi i)
  case Nil
  then show ?case by simp
next
  case (Cons v vs)
  show ?case
  proof (cases "best < v")
    case True
    have "argmax_from v i (Suc i) vs < length ((pre @ [v]) @ vs)
       \<and> (\<forall>j<length ((pre @ [v]) @ vs).
             ((pre @ [v]) @ vs) ! j \<le> ((pre @ [v]) @ vs) ! argmax_from v i (Suc i) vs)
       \<and> (\<forall>j<argmax_from v i (Suc i) vs.
             ((pre @ [v]) @ vs) ! j < ((pre @ [v]) @ vs) ! argmax_from v i (Suc i) vs)"
    proof (rule Cons.IH)
      show "i < length (pre @ [v])" using Cons.prems by simp
      show "(pre @ [v]) ! i = v" using Cons.prems by simp
      show "\<forall>j<length (pre @ [v]). (pre @ [v]) ! j \<le> v"
        using Cons.prems True by (auto simp: nth_append less_Suc_eq intro: less_imp_le order_trans)
      show "\<forall>j<i. (pre @ [v]) ! j < v"
        using Cons.prems True by (auto simp: nth_append intro: le_less_trans)
      show "Suc i = length (pre @ [v])" using Cons.prems by simp
    qed
    with True show ?thesis by simp
  next
    case False
    have "argmax_from best bi (Suc i) vs < length ((pre @ [v]) @ vs)
       \<and> (\<forall>j<length ((pre @ [v]) @ vs).
             ((pre @ [v]) @ vs) ! j \<le> ((pre @ [v]) @ vs) ! argmax_from best bi (Suc i) vs)
       \<and> (\<forall>j<argmax_from best bi (Suc i) vs.
             ((pre @ [v]) @ vs) ! j < ((pre @ [v]) @ vs) ! argmax_from best bi (Suc i) vs)"
    proof (rule Cons.IH)
      show "bi < length (pre @ [v])" using Cons.prems by simp
      show "(pre @ [v]) ! bi = best" using Cons.prems by (simp add: nth_append)
      show "\<forall>j<length (pre @ [v]). (pre @ [v]) ! j \<le> best"
        using Cons.prems False by (auto simp: nth_append less_Suc_eq)
      show "\<forall>j<bi. (pre @ [v]) ! j < best"
        using Cons.prems by (auto simp: nth_append)
      show "Suc i = length (pre @ [v])" using Cons.prems by simp
    qed
    with False show ?thesis by simp
  qed
qed

lemma np_argmax_first_max:
  assumes "xs \<noteq> []"
  shows "\<exists>r. np_argmax xs = Inr r \<and> r < length xs
           \<and> (\<forall>j<length xs. xs ! j \<le> xs ! r) \<and> (\<forall>j<r. xs ! j < xs ! r)"
proof -
  from assms obtain v vs where xs: "xs = v # vs" by (cases xs) auto
  have "argmax_from v 0 1 vs < length ([v] @ vs)
       \<and> (\<forall>j<length ([v] @ vs). ([v] @ vs) ! j \<le> ([v] @ vs) ! argmax_from v 0 1 vs)
       \<and> (\<forall>j<argmax_from v 0 1 vs. ([v] @ vs) ! j < ([v] @ vs) ! argmax_from v 0 1 vs)"
    by (rule argmax_from_first_max) simp_all
  then show ?thesis by (simp add: xs np_argmax_def)
qed

lemma mapM_Inr:
  assumes "\<And>x. x \<in> set xs \<Longrightarrow> g x = Inr (h x)"
  shows "mapM g xs = Inr (map h xs)"
  using assms by (induction xs) simp_all

lemma prod_list_butlast_last:
  assumes "s \<noteq> []"
  shows "prod_list s = prod_list (butlast s) * last (s :: nat list)"
proof -
  have "prod_list (butlast s @ [last s]) = prod_list (butlast s) * last s" by simp
  with assms show ?thesis by simp
qed

lemma nd_rows_nonempty_shape:
  assumes "shape a \<noteq> []"
  shows "nd_rows a = map (\<lambda>i. take (last (shape a)) (drop (i * last (shape a)) (data a)))
                       [0..<prod_list (butlast (shape a))]"
  using assms by (cases "shape a") (simp_all add: nd_rows_def Let_def)

lemma row_in_range:
  fixes k n p :: nat
  assumes "k < p"
  shows "k * n + n \<le> p * n"
proof -
  from assms have "Suc k \<le> p" by simp
  then have "Suc k * n \<le> p * n" by (rule mult_le_mono1)
  then show ?thesis by (simp add: add.commute)
qed

lemma row_length:
  assumes "length xs = p * n" and "k < p"
  shows "length (take n (drop (k * n) xs)) = n"
  using row_in_range [OF assms(2), of n] assms(1) by simp

lemma row_nth:
  assumes "length xs = p * n" and "k < p" and "j < n"
  shows "take n (drop (k * n) xs) ! j = xs ! (k * n + j)"
proof -
  have "k * n + n \<le> length xs"
    using row_in_range [OF assms(2), of n] assms(1) by (simp only:)
  then have "k * n \<le> length xs" by linarith
  then show ?thesis using assms(3) by simp
qed

lemma take_choice_Inr:
  assumes "i < length cs"
  shows "take_choice cs i = Inr (cs ! i)"
  using assms by (simp add: take_choice_def)

text \<open>
  Claim C9, as amended. For an array of rows that are non-empty and no wider than the
  vocabulary, \<open>DiscreteField.denormalize\<close> returns, for each row \<open>k\<close>, the vocabulary
  entry at the first position \<open>i\<close> of the row's largest value (every entry of the row is at
  most the entry at \<open>i\<close>, every entry before \<open>i\<close> is strictly smaller); the result is an
  entry of the vocabulary, and it is the first entry for an all-zero row.
  Row \<open>k\<close>, column \<open>j\<close> of \<open>x\<close> is \<open>data x ! (k * n + j)\<close> for rows of width \<open>n\<close>.
\<close>

theorem DiscreteField_denormalize_argmax:
  assumes wf: "length (data x) = prod_list (shape x)"
    and ne: "shape x \<noteq> []"
    and pos: "0 < last (shape x)"
    and le: "last (shape x) \<le> length (choices self)"
  shows "\<exists>y. DiscreteField_denormalize self x = Inr y
     \<and> shape y = butlast (shape x)
     \<and> length (data y) = prod_list (butlast (shape x))
     \<and> (\<forall>k<prod_list (butlast (shape x)). \<exists>i<last (shape x).
           data y ! k = choices self ! i \<and> data y ! k \<in> set (choices self)
         \<and> (\<forall>j<last (shape x).
               data x ! (k * last (shape x) + j) \<le> data x ! (k * last (shape x) + i))
         \<and> (\<forall>j<i. data x ! (k * last (shape x) + j) < data x ! (k * last (shape x) + i)))
     \<and> (\<forall>k<prod_list (butlast (shape x)).
           (\<forall>j<last (shape x). data x ! (k * last (shape x) + j) = 0) \<longrightarrow>
           data y ! k = choices self ! 0)"
proof -
  define n where "n = last (shape x)"
  define p where "p = prod_list (butlast (shape x))"
  define row where "row = (\<lambda>k. take n (drop (k * n) (data x)))"
  define h where "h = (\<lambda>r :: rat list. argmax_from (hd r) 0 1 (tl r))"
  have len: "length (data x) = p * n"
    using wf prod_list_butlast_last [OF ne] by (simp add: n_def p_def)
  have rows: "nd_rows x = map row [0..<p]"
    using nd_rows_nonempty_shape [OF ne] by (simp add: n_def p_def row_def)
  have row_len: "length (row k) = n" if "k < p" for k
    unfolding row_def by (rule row_length [OF len that])
  have row_at: "row k ! j = data x ! (k * n + j)" if "k < p" and "j < n" for k j
    unfolding row_def by (rule row_nth [OF len that])
  have am: "np_argmax (row k) = Inr (h (row k)) \<and> h (row k) < n
      \<and> (\<forall>j<n. row k ! j \<le> row k ! h (row k))
      \<and> (\<forall>j<h (row k). row k ! j < row k ! h (row k))" if "k < p" for k
  proof -
    have "row k \<noteq> []" using row_len [OF that] pos by (auto simp: n_def)
    from np_argmax_first_max [OF this] obtain r where
      r: "np_argmax (row k) = Inr r" "r < length (row k)"
         "\<forall>j<length (row k). row k ! j \<le> row k ! r" "\<forall>j<r. row k ! j < row k ! r"
      by blast
    have "h (row k) = r"
      using r(1) \<open>row k \<noteq> []\<close> by (cases "row k") (simp_all add: np_argmax_def h_def)
    with r show ?thesis by (simp add: row_len [OF that])
  qed
  have index: "mapM np_argmax (nd_rows x) = Inr (map h (nd_rows x))"
    by (rule mapM_Inr) (auto simp: rows am)
  have labels: "mapM (take_choice (choices self)) (map h (nd_rows x))
      = Inr (map (\<lambda>i. choices self ! i) (map h (nd_rows x)))"
  proof (rule mapM_Inr)
    fix i assume "i \<in> set (map h (nd_rows x))"
    then obtain k where "k < p" and "i = h (row k)" by (auto simp: rows)
    with am [of k] le have "i < length (choices self)" by (simp add: n_def)
    then show "take_choice (choices self) i = Inr (choices self ! i)"
      by (rule take_choice_Inr)
  qed
  let ?y = "\<lparr>shape = butlast (shape x),
      data = map (\<lambda>i. choices self ! i) (map h (nd_rows x))\<rparr>"
  have res: "DiscreteField_denormalize self x = Inr ?y"
    using pos by (simp add: DiscreteField_denormalize_def index labels)
  have at: "data ?y ! k = choices self ! h (row k)" if "k < p" for k
    using that by (simp add: rows)
  have each: "\<exists>i<n. data ?y ! k = choices self ! i \<and> data ?y ! k \<in> set (choices self)
         \<and> (\<forall>j<n. data x ! (k * n + j) \<le> data x ! (k * n + i))
         \<and> (\<forall>j<i. data x ! (k * n + j) < data x ! (k * n + i))" if "k < p" for k
  proof (intro exI conjI)
    note a = am [OF that]
    show "h (row k) < n" using a by simp
    show "data ?y ! k = choices self ! h (row k)" by (rule at [OF that])
    have "h (row k) < length (choices self)" using a le by (simp add: n_def)
    then have "choices self ! h (row k) \<in> set (choices self)" by (rule nth_mem)
    then show "data ?y ! k \<in> set (choices self)" by (simp only: at [OF that])
    show "\<forall>j<n. data x ! (k * n + j) \<le> data x ! (k * n + h (row k))"
      using a by (simp add: row_at [OF that, symmetric])
    show "\<forall>j<h (row k). data x ! (k * n + j) < data x ! (k * n + h (row k))"
    proof (intro allI impI)
      fix j assume j: "j < h (row k)"
      with a have "j < n" by simp
      from a j have "row k ! j < row k ! h (row k)" by simp
      then show "data x ! (k * n + j) < data x ! (k * n + h (row k))"
        using a \<open>j < n\<close> by (simp add: row_at [OF that])
    qed
  qed
  have zero: "data ?y ! k = choices self ! 0"
    if "k < p" and z: "\<forall>j<n. data x ! (k * n + j) = 0" for k
  proof -
    note a = am [OF that(1)]
    have "h (row k) = 0"
    proof (rule ccontr)
      assume "h (row k) \<noteq> 0"
      then have "0 < h (row k)" by simp
      with a have "row k ! 0 < row k ! h (row k)" by simp
      moreover have "row k ! 0 = 0"
      proof -
        have "0 < n" using pos by (simp add: n_def)
        then have "row k ! 0 = data x ! (k * n + 0)" by (rule row_at [OF that(1)])
        also have "\<dots> = 0" using z \<open>0 < n\<close> by blast
        finally show ?thesis .
      qed
      moreover have "row k ! h (row k) = 0"
      proof -
        have hn: "h (row k) < n" using a by simp
        then have "row k ! h (row k) = data x ! (k * n + h (row k))"
          by (rule row_at [OF that(1)])
        also have "\<dots> = 0" using z hn by blast
        finally show ?thesis .
      qed
      ultimately show False by simp
    qed
    then show ?thesis by (simp only: at [OF that(1)])
  qed
  show ?thesis
    unfolding res n_def [symmetric] p_def [symmetric]
    apply (rule exI [of _ ?y])
    apply (intro conjI allI impI)
        apply (rule refl)
       apply simp
      apply (simp add: rows)
     apply (erule each)
    apply (erule (1) zero)
    done
qed

text \<open>
  The claim C9 as stated speaks of every non-empty row; a row wider than the vocabulary
  whose largest value lies beyond it raises \<open>IndexError\<close>.
\<close>

theorem DiscreteField_denormalize_argmax_counterexample:
  "DiscreteField_denormalize \<lparr>name = ''proto'', choices = [''a'']\<rparr>
      \<lparr>shape = [2], data = [0, 1]\<rparr> = Inl IndexError"
  by (simp add: DiscreteField_denormalize_def nd_rows_def np_argmax_def take_choice_def)

theorem DiscreteField_denormalize_argmax_witness:
  "\<exists>y. DiscreteField_denormalize \<lparr>name = ''proto'', choices = [''a'', ''b'', ''c'']\<rparr>
          \<lparr>shape = [2, 3], data = [0, 0, 0, 1, 2, 2]\<rparr> = Inr y
     \<and> shape y = [2] \<and> data y = [''a'', ''b'']"
  using DiscreteField_denormalize_argmax
      [of "\<lparr>shape = [2, 3], data = [0, 0, 0, 1, 2, 2]\<rparr>"
          "\<lparr>name = ''proto'', choices = [''a'', ''b'', ''c'']\<rparr>"]
  by (simp add: DiscreteField_denormalize_def nd_rows_def np_argmax_def take_choice_def
      upt_rec)

section \<open>BitField: binary digits, the two loops and the round trip\<close>

lemma bin_digits_binary: "c \<in> set (bin_digits n) \<Longrightarrow> c = CHR ''0'' \<or> c = CHR ''1''"
proof (induction n arbitrary: c rule: bin_digits.induct)
  case (1 n)
  show ?case
  proof (cases "n < 2")
    case True
    with "1.prems" show ?thesis by (subst (asm) bin_digits.simps) (auto split: if_splits)
  next
    case False
    from "1.prems" have "c \<in> set (bin_digits (n div 2)) \<or> c = CHR ''0'' \<or> c = CHR ''1''"
      using False by (subst (asm) bin_digits.simps) (auto split: if_splits)
    with "1.IH" [OF False] show ?thesis by blast
  qed
qed

lemma bin_digits_nonempty: "bin_digits n \<noteq> []"
  by (subst bin_digits.simps) simp

lemma bin_digits_value:
  "foldl (\<lambda>acc c. 2 * acc + (if c = CHR ''1'' then 1 else 0)) 0 (bin_digits n) = int n"
proof (induction n rule: bin_digits.induct)
  case (1 n)
  show ?case
  proof (cases "n < 2")
    case True
    then have "n = 0 \<or> n = 1" by auto
    then show ?thesis by (subst bin_digits.simps) auto
  next
    case False
    have "n = 2 * (n div 2) + n mod 2" by simp
    then have "int n = int (2 * (n div 2) + n mod 2)" by (rule arg_cong)
    then have "int n = 2 * int (n div 2) + int (n mod 2)" by (simp only: of_nat_add of_nat_mult of_nat_numeral)
    moreover have "n mod 2 = 0 \<or> n mod 2 = 1" by auto
    ultimately show ?thesis
      using False "1.IH" [OF False] by (subst bin_digits.simps) auto
  qed
qed

lemma bin_digits_length_le:
  "n < 2 ^ k \<Longrightarrow> 0 < k \<Longrightarrow> length (bin_digits n) \<le> k"
proof (induction n arbitrary: k rule: bin_digits.induct)
  case (1 n)
  show ?case
  proof (cases "n < 2")
    case True
    with "1.prems" show ?thesis by (subst bin_digits.simps) simp
  next
    case False
    from "1.prems" obtain k' where k: "k = Suc k'" by (cases k) auto
    have "0 < k'"
    proof (rule ccontr)
      assume "\<not> 0 < k'"
      then have "k = 1" using k by simp
      with "1.prems" False show False by simp
    qed
    moreover have "n div 2 < 2 ^ k'" using "1.prems"(1) k by auto
    ultimately have "length (bin_digits (n div 2)) \<le> k'" using "1.IH" [OF False] by blast
    then show ?thesis using False k by (subst bin_digits.simps) simp
  qed
qed

lemma bin_digits_length_gt:
  "2 ^ k \<le> n \<Longrightarrow> k < length (bin_digits n)"
proof (induction n arbitrary: k rule: bin_digits.induct)
  case (1 n)
  show ?case
  proof (cases "n < 2")
    case True
    have "k = 0"
    proof (rule ccontr)
      assume "k \<noteq> 0"
      then obtain k' where "k = Suc k'" by (cases k) auto
      then have "(2::nat) \<le> 2 ^ k" by simp
      with "1.prems" True show False by simp
    qed
    then show ?thesis using True by (subst bin_digits.simps) simp
  next
    case False
    show ?thesis
    proof (cases k)
      case 0
      then show ?thesis using False by (subst bin_digits.simps) simp
    next
      case (Suc k')
      with "1.prems" have "2 ^ k' \<le> n div 2" by auto
      then have "k' < length (bin_digits (n div 2))" using "1.IH" [OF False] by blast
      then show ?thesis using False Suc by (subst bin_digits.simps) simp
    qed
  qed
qed

lemma leading_zeros_value:
  "foldl (\<lambda>acc c. 2 * acc + (if c = CHR ''1'' then 1 else 0)) (0::int) (replicate m (CHR ''0'') @ s)
     = foldl (\<lambda>acc c. 2 * acc + (if c = CHR ''1'' then 1 else 0)) 0 s"
  by (induction m) simp_all

lemma int_of_digit_binary:
  assumes "c = CHR ''0'' \<or> c = CHR ''1''"
  shows "int_of_digit c = Inr (if c = CHR ''1'' then 1 else 0)"
  using assms by (auto simp: int_of_digit_def)

lemma normalize_loop_binary:
  assumes "\<forall>b\<in>set bs. b = 0 \<or> b = 1"
  shows "normalize_loop bs bits out
           = (bits @ concat (map (\<lambda>b. if b = 0 then [1, 0] else [0, 1]) bs), out)"
  using assms by (induction bs arbitrary: bits) auto

lemma zfill_unsigned:
  assumes "s \<noteq> []" and "hd s \<noteq> CHR ''+''" and "hd s \<noteq> CHR ''-''"
  shows "zfill s width = replicate (nat width - length s) (CHR ''0'') @ s"
  using assms by (cases s) (auto simp: zfill_def)

lemma BitField_normalize_nonneg:
  assumes "0 \<le> d"
  shows "BitField_normalize self d
     = Inr (concat (map (\<lambda>c. if c = CHR ''0'' then [1, 0] else [0, 1])
              (replicate (nat (num_bits self) - length (bin_digits (nat d))) (CHR ''0'')
                 @ bin_digits (nat d))), [])"
proof -
  let ?zs = "replicate (nat (num_bits self) - length (bin_digits (nat d))) (CHR ''0'')
                 @ bin_digits (nat d)"
  have b: "drop 2 (bin d) = bin_digits (nat d)" using assms by (simp add: bin_def)
  have hd: "hd (bin_digits (nat d)) = CHR ''0'' \<or> hd (bin_digits (nat d)) = CHR ''1''"
    using bin_digits_binary [of "hd (bin_digits (nat d))" "nat d"] bin_digits_nonempty [of "nat d"]
    by simp
  have z: "zfill (bin_digits (nat d)) (num_bits self) = ?zs"
    by (rule zfill_unsigned) (use hd bin_digits_nonempty in auto)
  have zb: "c = CHR ''0'' \<or> c = CHR ''1''" if "c \<in> set ?zs" for c
    using that bin_digits_binary [of c "nat d"] by (auto split: if_splits)
  have m: "mapM int_of_digit ?zs = Inr (map (\<lambda>c. if c = CHR ''1'' then 1 else 0) ?zs)"
    by (rule mapM_Inr) (rule int_of_digit_binary, rule zb)
  have l: "normalize_loop (map (\<lambda>c. if c = CHR ''1'' then 1 else 0) ?zs) [] []
      = ([] @ concat (map (\<lambda>b. if b = 0 then [1, 0] else [0, 1])
                (map (\<lambda>c. if c = CHR ''1'' then (1::int) else 0) ?zs)), [])"
    by (rule normalize_loop_binary) auto
  have c: "map (\<lambda>b. if b = 0 then [1, 0] else [0, 1::rat])
                (map (\<lambda>c. if c = CHR ''1'' then (1::int) else 0) ?zs)
      = map (\<lambda>c. if c = CHR ''0'' then [1, 0] else [0, 1]) ?zs"
    using zb by (auto simp: comp_def)
  show ?thesis
    unfolding BitField_normalize_def b z m sum.case l c append_Nil by (rule refl)
qed

lemma pair_chunk:
  assumes "i < length zs"
  shows "take 2 (drop (2 * i) (concat (map (\<lambda>c. if c = CHR ''0'' then [1, 0] else [0, 1::rat]) zs)))
           = (if zs ! i = CHR ''0'' then [1, 0] else [0, 1])"
  using assms
proof (induction zs arbitrary: i)
  case Nil
  then show ?case by simp
next
  case (Cons z zs)
  show ?case
  proof (cases i)
    case 0
    then show ?thesis by simp
  next
    case (Suc j)
    with Cons.prems have "j < length zs" by simp
    from Cons.IH [OF this] show ?thesis using Suc by simp
  qed
qed

lemma np_argmax_pairs: "np_argmax [1, 0] = Inr 0" "np_argmax [0, 1] = Inr 1"
  by (simp_all add: np_argmax_def)

lemma denormalize_loop_pairs:
  assumes "\<forall>i\<in>set is. i < length zs"
    and "\<forall>c\<in>set zs. c = CHR ''0'' \<or> c = CHR ''1''"
  shows "denormalize_loop (concat (map (\<lambda>c. if c = CHR ''0'' then [1, 0] else [0, 1]) zs)) is acc
           = Inr (acc @ map (\<lambda>i. zs ! i) is)"
  using assms(1)
proof (induction "is" arbitrary: acc)
  case Nil
  then show ?case by simp
next
  case (Cons i "is")
  from Cons.prems have i: "i < length zs" and rest: "\<forall>i\<in>set is. i < length zs" by simp_all
  from i assms(2) have zi: "zs ! i = CHR ''0'' \<or> zs ! i = CHR ''1''" by simp
  show ?case
    using zi Cons.IH [OF rest] by (auto simp: pair_chunk [OF i] np_argmax_pairs)
qed

lemma int_base2_prefixed:
  assumes "zs \<noteq> []" and "\<forall>c\<in>set zs. c = CHR ''0'' \<or> c = CHR ''1''"
  shows "int_base2 (''0b'' @ zs)
           = Inr (foldl (\<lambda>acc c. 2 * acc + (if c = CHR ''1'' then 1 else 0)) 0 zs)"
  using assms by (simp add: int_base2_def list_all_iff)

lemma concat_pairs_length:
  "length (concat (map (\<lambda>c. if c = CHR ''0'' then [1, 0] else [0, 1::rat]) zs)) = 2 * length zs"
  by (induction zs) simp_all

lemma nat_less_power2:
  assumes "0 \<le> d" and "d < 2 ^ n"
  shows "nat d < 2 ^ n"
proof -
  have "int (nat d) < int (2 ^ n)" using assms by simp
  then show ?thesis by (simp only: of_nat_less_iff)
qed

lemma nat_ge_power2:
  assumes "(2::int) ^ n \<le> d"
  shows "2 ^ n \<le> nat d"
proof -
  have "0 \<le> d" using assms by (rule order_trans [rotated]) simp
  then have "int (2 ^ n) \<le> int (nat d)" using assms by simp
  then show ?thesis by (simp only: of_nat_le_iff)
qed

lemma padded_digits:
  assumes "1 \<le> num_bits self" and "0 \<le> d" and "d < 2 ^ nat (num_bits self)"
  shows "length (replicate (nat (num_bits self) - length (bin_digits (nat d))) (CHR ''0'')
                 @ bin_digits (nat d)) = nat (num_bits self)"
proof -
  have "nat d < 2 ^ nat (num_bits self)" using assms(2,3) by (rule nat_less_power2)
  moreover have "0 < nat (num_bits self)" using assms(1) by simp
  ultimately have "length (bin_digits (nat d)) \<le> nat (num_bits self)"
    by (rule bin_digits_length_le)
  then show ?thesis by simp
qed

lemma pair_at:
  assumes "take 2 (drop k xs) = [a, b]"
  shows "xs ! k = a \<and> xs ! Suc k = b"
proof -
  from assms have "length (take 2 (drop k xs)) = 2" by simp
  then have len: "k + 2 \<le> length xs" by simp
  have "take 2 (drop k xs) ! 0 = xs ! (k + 0)" "take 2 (drop k xs) ! 1 = xs ! (k + 1)"
    using len by simp_all
  with assms show ?thesis by simp
qed

text \<open>
  Claim C2, as amended. BitField round trip: for \<open>num_bits \<ge> 1\<close> and every integer
  \<open>d\<close> with \<open>0 \<le> d < 2^num_bits\<close>, \<open>normalize(d)\<close> returns a list, printing nothing, and
  \<open>denormalize\<close> of that list is \<open>d\<close>.
\<close>

theorem BitField_roundtrip:
  assumes "1 \<le> num_bits self" and "0 \<le> d" and "d < 2 ^ nat (num_bits self)"
  shows "\<exists>bits. BitField_normalize self d = Inr (bits, [])
           \<and> BitField_denormalize self bits = Inr d"
proof -
  define zs where "zs = replicate (nat (num_bits self) - length (bin_digits (nat d))) (CHR ''0'')
                 @ bin_digits (nat d)"
  define bits where "bits = concat (map (\<lambda>c. if c = CHR ''0'' then [1, 0] else [0, 1::rat]) zs)"
  have n: "BitField_normalize self d = Inr (bits, [])"
    unfolding bits_def zs_def by (rule BitField_normalize_nonneg [OF assms(2)])
  have len: "length zs = nat (num_bits self)"
    unfolding zs_def by (rule padded_digits [OF assms])
  have zb: "\<forall>c\<in>set zs. c = CHR ''0'' \<or> c = CHR ''1''"
    using bin_digits_binary [of _ "nat d"] by (auto simp: zs_def split: if_splits)
  have ne: "zs \<noteq> []" using bin_digits_nonempty [of "nat d"] by (simp add: zs_def)
  have blen: "int (length bits) = 2 * num_bits self"
    using len assms(1) by (simp add: bits_def concat_pairs_length)
  have "denormalize_loop bits [0..<nat (num_bits self)] ''0b''
      = Inr (''0b'' @ map (\<lambda>i. zs ! i) [0..<nat (num_bits self)])"
    unfolding bits_def by (rule denormalize_loop_pairs) (use len zb in auto)
  also have "map (\<lambda>i. zs ! i) [0..<nat (num_bits self)] = zs"
    using map_nth [of zs] by (simp only: len)
  finally have loop: "denormalize_loop bits [0..<nat (num_bits self)] ''0b'' = Inr (''0b'' @ zs)" .
  have "int_base2 (''0b'' @ zs)
      = Inr (foldl (\<lambda>acc c. 2 * acc + (if c = CHR ''1'' then 1 else 0)) 0 zs)"
    by (rule int_base2_prefixed [OF ne zb])
  also have "foldl (\<lambda>acc c. 2 * acc + (if c = CHR ''1'' then 1 else 0)) 0 zs = int (nat d)"
    unfolding zs_def by (simp only: leading_zeros_value bin_digits_value)
  finally have v: "int_base2 (''0b'' @ zs) = Inr d" using assms(2) by simp
  have "BitField_denormalize self bits = Inr d"
    unfolding BitField_denormalize_def loop sum.case v using blen by simp
  with n show ?thesis by blast
qed

text \<open>
  Claim C10, as amended. Well-formed output of \<open>BitField.normalize\<close>: for
  \<open>num_bits \<ge> 1\<close> and \<open>0 \<le> d < 2^num_bits\<close> the result is a list of exactly
  \<open>2 * num_bits\<close> entries whose positions \<open>2i, 2i+1\<close> hold \<open>1, 0\<close> or \<open>0, 1\<close>, and
  nothing is printed: the branch for a digit other than 0 and 1 is not taken.
\<close>

theorem BitField_normalize_wellformed:
  assumes "1 \<le> num_bits self" and "0 \<le> d" and "d < 2 ^ nat (num_bits self)"
  shows "\<exists>bits. BitField_normalize self d = Inr (bits, [])
           \<and> int (length bits) = 2 * num_bits self
           \<and> (\<forall>i<nat (num_bits self).
                 (bits ! (2 * i) = 1 \<and> bits ! (2 * i + 1) = 0)
               \<or> (bits ! (2 * i) = 0 \<and> bits ! (2 * i + 1) = 1))"
proof -
  define zs where "zs = replicate (nat (num_bits self) - length (bin_digits (nat d))) (CHR ''0'')
                 @ bin_digits (nat d)"
  define bits where "bits = concat (map (\<lambda>c. if c = CHR ''0'' then [1, 0] else [0, 1::rat]) zs)"
  have n: "BitField_normalize self d = Inr (bits, [])"
    unfolding bits_def zs_def by (rule BitField_normalize_nonneg [OF assms(2)])
  have len: "length zs = nat (num_bits self)"
    unfolding zs_def by (rule padded_digits [OF assms])
  have blen: "int (length bits) = 2 * num_bits self"
    using len assms(1) by (simp add: bits_def concat_pairs_length)
  have pairs: "(bits ! (2 * i) = 1 \<and> bits ! (2 * i + 1) = 0)
               \<or> (bits ! (2 * i) = 0 \<and> bits ! (2 * i + 1) = 1)" if "i < nat (num_bits self)" for i
  proof -
    from that len have i: "i < length zs" by simp
    have c: "take 2 (drop (2 * i) bits) = (if zs ! i = CHR ''0'' then [1, 0] else [0, 1])"
      unfolding bits_def by (rule pair_chunk [OF i])
    show ?thesis
    proof (cases "zs ! i = CHR ''0''")
      case True
      with c have "take 2 (drop (2 * i) bits) = [1, 0]" by simp
      from pair_at [OF this] show ?thesis by simp
    next
      case False
      with c have "take 2 (drop (2 * i) bits) = [0, 1]" by simp
      from pair_at [OF this] show ?thesis by simp
    qed
  qed
  from n blen pairs show ?thesis by blast
qed

text \<open>
  Claim C3, as amended. For \<open>num_bits \<ge> 0\<close> and \<open>decimal_x \<ge> 2^num_bits\<close>,
  \<open>BitField.normalize\<close> raises nothing and prints nothing: it returns the one-hot pairs
  (\<open>[1.0, 0.0]\<close> for a \<open>0\<close>, \<open>[0.0, 1.0]\<close> for a \<open>1\<close>) of all binary digits of
  \<open>decimal_x\<close>, most significant first and without padding; these digits read in base 2
  are \<open>decimal_x\<close>, and the list has twice as many entries as there are digits, which is
  more than \<open>2 * num_bits\<close>.
\<close>

theorem BitField_normalize_overflow:
  assumes "0 \<le> num_bits self" and "2 ^ nat (num_bits self) \<le> d"
  shows "\<exists>bits. BitField_normalize self d = Inr (bits, [])
           \<and> bits = concat (map (\<lambda>c. if c = CHR ''0'' then [1, 0] else [0, 1])
                              (bin_digits (nat d)))
           \<and> int_base2 (''0b'' @ bin_digits (nat d)) = Inr d
           \<and> length bits = 2 * length (bin_digits (nat d))
           \<and> 2 * num_bits self < int (length bits)"
proof -
  have d0: "0 \<le> d" using assms(2) by (rule order_trans [rotated]) simp
  have "2 ^ nat (num_bits self) \<le> nat d" using assms(2) by (rule nat_ge_power2)
  then have gt: "nat (num_bits self) < length (bin_digits (nat d))"
    by (rule bin_digits_length_gt)
  then have pad: "nat (num_bits self) - length (bin_digits (nat d)) = 0" by simp
  let ?bits = "concat (map (\<lambda>c. if c = CHR ''0'' then [1, 0] else [0, 1::rat])
                 (bin_digits (nat d)))"
  have n: "BitField_normalize self d = Inr (?bits, [])"
    using BitField_normalize_nonneg [OF d0, of self] by (simp only: pad replicate_0 append_Nil)
  have "int_base2 (''0b'' @ bin_digits (nat d))
      = Inr (foldl (\<lambda>acc c. 2 * acc + (if c = CHR ''1'' then 1 else 0)) 0 (bin_digits (nat d)))"
    by (rule int_base2_prefixed) (use bin_digits_nonempty bin_digits_binary in auto)
  also have "foldl (\<lambda>acc c. 2 * acc + (if c = CHR ''1'' then 1 else 0)) 0 (bin_digits (nat d))
      = int (nat d)"
    by (rule bin_digits_value)
  finally have v: "int_base2 (''0b'' @ bin_digits (nat d)) = Inr d" using d0 by simp
  have l: "length ?bits = 2 * length (bin_digits (nat d))" by (rule concat_pairs_length)
  have "2 * num_bits self < int (length ?bits)" using gt assms(1) unfolding l by linarith
  with n v l show ?thesis by blast
qed

text \<open>
  The claim C2 as stated includes \<open>num_bits = 0\<close>, \<open>d = 0\<close>: \<open>bin(0)\<close> has the digit
  \<open>0\<close>, so \<open>normalize\<close> returns one pair, and \<open>denormalize\<close> fails its length assertion.
\<close>

theorem BitField_roundtrip_counterexample:
  "BitField_normalize \<lparr>name = ''flag'', num_bits = 0\<rparr> 0 = Inr ([1, 0], [])
   \<and> BitField_denormalize \<lparr>name = ''flag'', num_bits = 0\<rparr> [1, 0] = Inl AssertionError"
  by (simp add: BitField_normalize_def BitField_denormalize_def bin_def zfill_def
      bin_digits.simps [of 0] int_of_digit_def)

theorem BitField_roundtrip_witness:
  "BitField_normalize \<lparr>name = ''port'', num_bits = 4\<rparr> 5 = Inr ([1, 0, 0, 1, 1, 0, 0, 1], [])
   \<and> BitField_denormalize \<lparr>name = ''port'', num_bits = 4\<rparr> [1, 0, 0, 1, 1, 0, 0, 1] = Inr 5"
proof -
  have e: "BitField_normalize \<lparr>name = ''port'', num_bits = 4\<rparr> 5
      = Inr ([1, 0, 0, 1, 1, 0, 0, 1], [])"
    by code_simp
  from BitField_roundtrip [of "\<lparr>name = ''port'', num_bits = 4\<rparr>" 5]
  obtain bits where "BitField_normalize \<lparr>name = ''port'', num_bits = 4\<rparr> 5 = Inr (bits, [])"
    and "BitField_denormalize \<lparr>name = ''port'', num_bits = 4\<rparr> bits = Inr 5"
    by auto
  with e show ?thesis by simp
qed

text \<open>
  The claim C10 as stated includes \<open>num_bits = 0\<close>, \<open>d = 0\<close>, where the result has two
  entries and not \<open>2 * num_bits = 0\<close>.
\<close>

theorem BitField_normalize_wellformed_counterexample:
  "BitField_normalize \<lparr>name = ''flag'', num_bits = 0\<rparr> 0 = Inr ([1, 0], [])
   \<and> int (length [1, 0 :: rat]) \<noteq> 2 * num_bits \<lparr>name = ''flag'', num_bits = 0\<rparr>"
  by (simp add: BitField_normalize_def bin_def zfill_def
      bin_digits.simps [of 0] int_of_digit_def)

theorem BitField_normalize_wellformed_witness:
  "\<exists>bits. BitField_normalize \<lparr>name = ''port'', num_bits = 3\<rparr> 6 = Inr (bits, [])
     \<and> length bits = 6
     \<and> bits ! 0 = 0 \<and> bits ! 1 = 1 \<and> bits ! 2 = 0 \<and> bits ! 3 = 1 \<and> bits ! 4 = 1 \<and> bits ! 5 = 0"
proof -
  have e: "BitField_normalize \<lparr>name = ''port'', num_bits = 3\<rparr> 6
      = Inr ([0, 1, 0, 1, 1, 0], [])"
    by code_simp
  from BitField_normalize_wellformed [of "\<lparr>name = ''port'', num_bits = 3\<rparr>" 6]
  obtain bits where "BitField_normalize \<lparr>name = ''port'', num_bits = 3\<rparr> 6 = Inr (bits, [])"
    and "int (length bits) = 2 * 3"
    by auto
  with e show ?thesis by auto
qed

text \<open>
  The claim C3 as stated asks for an error on \<open>BitField(num_bits=3).normalize(8)\<close>; the
  source returns the four pairs of \<open>1000\<close>.
\<close>

theorem BitField_normalize_overflow_counterexample:
  "BitField_normalize \<lparr>name = ''port'', num_bits = 3\<rparr> 8
     = Inr ([0, 1, 1, 0, 1, 0, 1, 0], [])"
  by code_simp

theorem BitField_normalize_overflow_witness:
  "\<exists>bits. BitField_normalize \<lparr>name = ''port'', num_bits = 3\<rparr> 9 = Inr (bits, [])
     \<and> bits = [0, 1, 1, 0, 1, 0, 0, 1]
     \<and> int_base2 ''0b1001'' = Inr 9
     \<and> length bits = 8 \<and> 2 * 3 < int (length bits)"
proof -
  have e: "bin_digits 9 = ''1001''" by code_simp
  from BitField_normalize_overflow [of "\<lparr>name = ''port'', num_bits = 3\<rparr>" 9]
  show ?thesis by (simp add: e)
qed

end
